theory Spec2Isabelle
  imports Main
begin

section \<open>QuasiPiler reader: a shallow embedding of \<^verbatim>\<open>reader.hpp\<close> and \<^verbatim>\<open>reader.cpp\<close>\<close>

subsection \<open>Tokens (\<^verbatim>\<open>reader.hpp\<close>)\<close>

text \<open>
  \<^verbatim>\<open>enum class token_kind\<close> and \<^verbatim>\<open>struct token\<close>. The fields \<^verbatim>\<open>line\<close> and \<^verbatim>\<open>col\<close> of
  \<^verbatim>\<open>token\<close> are called \<open>tok_line\<close> and \<open>tok_col\<close> here, because the reader has fields of the
  same names.
\<close>

datatype token_kind =
    eof | open_bracket | close_bracket | separator | keyword | string
  | whitespace | integer | floating | special_character

record token =
  kind :: token_kind
  tok_line :: int
  tok_col :: int

subsection \<open>Errors\<close>

text \<open>
  Every \<^verbatim>\<open>throw throw_message("...")\<close> of \<^verbatim>\<open>reader.cpp\<close> is one constructor (the message is
  its identity), \<^verbatim>\<open>std::invalid_argument\<close> of the path constructor is \<open>OpenFailure\<close>, and a
  failing \<^verbatim>\<open>assert\<close> is \<open>AssertionFailed\<close>. The specification groups the messages into
  \<^verbatim>\<open>NumberFormatError\<close>, \<^verbatim>\<open>StringError\<close> and \<^verbatim>\<open>SeekError\<close>. \<open>UndefinedBehaviour\<close> is no
  exception: it marks the one place where the source leaves the behaviour of the program
  undefined, and nothing is said about a run that reaches it.
\<close>

datatype error =
    LeadingZeros                \<comment> \<open>invalid number format: leading zeros are not allowed\<close>
  | ExpectedDigit               \<comment> \<open>invalid number format: expected digit\<close>
  | ExpectedDigitAfterDecimal   \<comment> \<open>invalid number format: expected digit after decimal\<close>
  | ExpectedDigitAfterExponent  \<comment> \<open>invalid number format: expected digit after exponent\<close>
  | InvalidUnicodeEscape        \<comment> \<open>invalid Unicode escape sequence\<close>
  | InvalidEscape               \<comment> \<open>invalid escape sequence\<close>
  | MissingClosingQuote         \<comment> \<open>missing closing quote\<close>
  | PositionOutOfRange          \<comment> \<open>position is out of range\<close>
  | OpenFailure                 \<comment> \<open>failed to open file\<close>
  | AssertionFailed
  | UndefinedBehaviour          \<comment> \<open>a store beyond the storage of \<^verbatim>\<open>buffer\<close>\<close>

fun NumberFormatError :: "error \<Rightarrow> bool" where
  "NumberFormatError LeadingZeros = True"
| "NumberFormatError ExpectedDigit = True"
| "NumberFormatError ExpectedDigitAfterDecimal = True"
| "NumberFormatError ExpectedDigitAfterExponent = True"
| "NumberFormatError _ = False"


fun SeekError :: "error \<Rightarrow> bool" where
  "SeekError PositionOutOfRange = True"
| "SeekError _ = False"

subsection \<open>Character classes of \<^verbatim>\<open><cctype>\<close> (the "C" locale)\<close>

text \<open>A byte above \<^verbatim>\<open>0x7F\<close> belongs to none of the classes.\<close>

definition isdigit :: "char \<Rightarrow> bool" where
  "isdigit c = (let n = (of_char c :: nat) in 48 \<le> n \<and> n \<le> 57)"

definition isalpha :: "char \<Rightarrow> bool" where
  "isalpha c = (let n = (of_char c :: nat) in (65 \<le> n \<and> n \<le> 90) \<or> (97 \<le> n \<and> n \<le> 122))"

definition isalnum :: "char \<Rightarrow> bool" where
  "isalnum c = (isalpha c \<or> isdigit c)"

definition isspace :: "char \<Rightarrow> bool" where
  "isspace c = (let n = (of_char c :: nat) in n = 32 \<or> (9 \<le> n \<and> n \<le> 13))"

definition isxdigit :: "char \<Rightarrow> bool" where
  "isxdigit c = (let n = (of_char c :: nat) in
     (48 \<le> n \<and> n \<le> 57) \<or> (65 \<le> n \<and> n \<le> 70) \<or> (97 \<le> n \<and> n \<le> 102))"

subsection \<open>The input file stream\<close>

text \<open>
  \<^verbatim>\<open>std::ifstream ifs\<close>, as far as the reader uses it: whether a file is open, the bytes of
  the file, the get position, and the state flags \<^verbatim>\<open>eofbit\<close> and \<^verbatim>\<open>failbit\<close>. The
  operations follow the unformatted input functions of the C++ standard library: each one
  first builds a sentry, which sets \<^verbatim>\<open>failbit\<close> and does nothing more when the stream is
  not \<^verbatim>\<open>good()\<close>.
\<close>

record ifstream =
  is_open :: bool
  content :: string
  gpos :: nat
  eofbit :: bool
  failbit :: bool

definition closed_stream :: ifstream where
  "closed_stream = \<lparr>is_open = False, content = [], gpos = 0, eofbit = False, failbit = False\<rparr>"

text \<open>\<^verbatim>\<open>ifs.open(path, in | binary)\<close> on a path that names a readable file with these bytes.\<close>

definition open_stream :: "string \<Rightarrow> ifstream" where
  "open_stream bytes =
     \<lparr>is_open = True, content = bytes, gpos = 0, eofbit = False, failbit = False\<rparr>"

text \<open>
  \<^verbatim>\<open>ifs.read(s, n)\<close>: the bytes extracted (\<^verbatim>\<open>gcount()\<close> is their number) and the stream
  afterwards. Reaching the end of the file before \<open>n\<close> bytes sets \<^verbatim>\<open>eofbit\<close> and
  \<^verbatim>\<open>failbit\<close>.
\<close>

definition ifs_read :: "ifstream \<Rightarrow> int \<Rightarrow> string \<times> ifstream" where
  "ifs_read s n =
     (if eofbit s \<or> failbit s then ([], s\<lparr>failbit := True\<rparr>)
      else let avail = drop (gpos s) (content s);
               bytes = take (nat n) avail;
               short = (length bytes < nat n)
           in (bytes, s\<lparr>gpos := gpos s + length bytes, eofbit := short, failbit := short\<rparr>))"

text \<open>
  \<^verbatim>\<open>ifs.seekg(pos, std::ios::beg)\<close>: clears \<^verbatim>\<open>eofbit\<close> first, and repositions only when
  the stream has not failed.
\<close>

definition ifs_seekg :: "ifstream \<Rightarrow> int \<Rightarrow> ifstream" where
  "ifs_seekg s pos =
     (let s1 = s\<lparr>eofbit := False\<rparr>
      in if failbit s1 then s1
         else if \<not> is_open s1 \<or> pos < 0 then s1\<lparr>failbit := True\<rparr>
         else s1\<lparr>gpos := nat pos\<rparr>)"

text \<open>\<^verbatim>\<open>ifs.tellg()\<close>: \<open>-1\<close> on a stream that is not good.\<close>

definition ifs_tellg :: "ifstream \<Rightarrow> int \<times> ifstream" where
  "ifs_tellg s =
     (if eofbit s \<or> failbit s then (- 1, s\<lparr>failbit := True\<rparr>)
      else if \<not> is_open s then (- 1, s)
      else (int (gpos s), s))"

subsection \<open>The reader (\<^verbatim>\<open>class reader\<close>)\<close>

text \<open>
  The private members of \<^verbatim>\<open>reader\<close>. \<^verbatim>\<open>buffer\<close> is the value of the \<^verbatim>\<open>std::string\<close>:
  its \<^verbatim>\<open>size()\<close> is the length of the list. \<^verbatim>\<open>line\<close> and \<^verbatim>\<open>col\<close> are C++ \<^verbatim>\<open>int\<close>, modelled
  as unbounded integers; \<^verbatim>\<open>shift\<close> is a \<^verbatim>\<open>size_t\<close>.
\<close>

record reader =
  ifs :: ifstream
  buffer :: string
  max_buffer_size :: int
  offset :: int
  col :: int
  line :: int
  shift :: nat

text \<open>
  \<^verbatim>\<open>ifs.read(buffer.data(), n)\<close> stores the bytes read through the data pointer and leaves
  \<^verbatim>\<open>size()\<close> as it is. The storage behind the pointer holds the characters of the string
  and, for a string of up to 15 characters, the 15 characters of the small-string storage
  (libstdc++), and the model knows of no more than that: \<open>storage buf\<close>. A read that
  stores more bytes than the storage holds writes over whatever lies behind it, the other
  members of the reader first; its behaviour is undefined.
\<close>

definition small_string_capacity :: nat where
  "small_string_capacity = 15"

definition storage :: "string \<Rightarrow> nat" where
  "storage buf = max small_string_capacity (length buf)"

text \<open>
  Within the storage, the characters of the string below \<^verbatim>\<open>size()\<close> are overwritten, and
  what is stored between \<^verbatim>\<open>size()\<close> and the end of the storage is not part of the string.
\<close>

definition store_bytes :: "string \<Rightarrow> string \<Rightarrow> string" where
  "store_bytes bytes buf = take (length buf) bytes @ drop (length bytes) buf"

text \<open>
  \<^verbatim>\<open>buffer.resize(n)\<close>: truncates, or appends null characters (over what the read has
  stored there).
\<close>

definition resize :: "string \<Rightarrow> nat \<Rightarrow> string" where
  "resize buf n = take n buf @ replicate (n - length buf) (CHR 0x00)"

definition refill_buffer :: "reader \<Rightarrow> error + reader" where
  "refill_buffer r =
     (if \<not> is_open (ifs r) \<or> eofbit (ifs r) then Inr r
      else let (off, s1) = ifs_tellg (ifs r);
               (bytes, s2) = ifs_read s1 (max_buffer_size r)
           in if storage (buffer r) < length bytes then Inl UndefinedBehaviour
              else let buf1 = store_bytes bytes (buffer r);
                       read_bytes = int (length bytes);
                       buf2 = (if read_bytes < max_buffer_size r
                               then resize buf1 (nat read_bytes) else buf1)
                   in Inr (r\<lparr>ifs := s2, offset := off, buffer := buf2, shift := 0\<rparr>))"

text \<open>
  The constructor from a path. The file system is the argument \<open>file\<close>: \<open>None\<close> when the
  path cannot be opened, otherwise the bytes of the file. The members keep their default
  initialisers (\<^verbatim>\<open>offset { -1 }\<close>, \<^verbatim>\<open>col { -1 }, line { -1 }\<close>, \<^verbatim>\<open>shift { 0 }\<close>, an empty
  \<^verbatim>\<open>buffer\<close>) until the body assigns them. The result is \<open>UndefinedBehaviour\<close> when the
  first read stores more than the storage of the empty buffer holds.
\<close>

definition reader_from_path :: "string option \<Rightarrow> int \<Rightarrow> error + reader" where
  "reader_from_path file buffer_size =
     (case file of
        None \<Rightarrow> Inl OpenFailure
      | Some bytes \<Rightarrow>
          let s0 = ifs_seekg (open_stream bytes) 0;
              (off, s1) = ifs_tellg s0
          in refill_buffer
               \<lparr>ifs = s1, buffer = [], max_buffer_size = buffer_size, offset = off,
                col = - 1, line = - 1, shift = 0\<rparr>)"

text \<open>The constructor from a string buffer.\<close>

definition reader_from_buffer :: "string \<Rightarrow> reader" where
  "reader_from_buffer str =
     (let r = \<lparr>ifs = closed_stream, buffer = str, max_buffer_size = 0, offset = - 1,
               col = - 1, line = - 1, shift = 0\<rparr>
      in if buffer r \<noteq> [] then r\<lparr>line := 0, col := 0\<rparr> else r)"

definition valid :: "reader \<Rightarrow> bool" where
  "valid r = (buffer r \<noteq> [] \<and> shift r < length (buffer r))"

text \<open>
  \<^verbatim>\<open>peek()\<close> is \<^verbatim>\<open>buffer[shift]\<close>. At \<^verbatim>\<open>shift == buffer.size()\<close> the subscript of a
  \<^verbatim>\<open>std::string\<close> yields the null character; the reader never subscripts beyond that.
\<close>

definition peek :: "reader \<Rightarrow> char" where
  "peek r = (if shift r < length (buffer r) then buffer r ! shift r else CHR 0x00)"

definition "next" :: "reader \<Rightarrow> error + reader" where
  "next r =
     (if buffer r = [] then Inl AssertionFailed
      else let r1 = r\<lparr>shift := shift r + 1, col := col r + 1\<rparr>
           in if shift r1 \<ge> length (buffer r1) then refill_buffer r1 else Inr r1)"

definition get :: "reader \<Rightarrow> error + char \<times> reader" where
  "get r =
     (let current = peek r
      in case next r of Inl e \<Rightarrow> Inl e | Inr r1 \<Rightarrow> Inr (current, r1))"

subsection \<open>Results of the tokenizer\<close>

text \<open>
  The loops of the tokenizer run until the reader stops them, and on a reader with an open
  file whose chunk size is not positive they need not stop at all. A function with a loop
  therefore returns an option: \<open>None\<close> when the loop runs forever, \<open>Some (Inl e)\<close> when
  \<open>e\<close> is thrown, \<open>Some (Inr x)\<close> when \<open>x\<close> is returned.
\<close>

definition and_then ::
  "(error + 'a) option \<Rightarrow> ('a \<Rightarrow> (error + 'b) option) \<Rightarrow> (error + 'b) option" where
  "and_then m f = (case m of None \<Rightarrow> None | Some (Inl e) \<Rightarrow> Some (Inl e) | Some (Inr x) \<Rightarrow> f x)"

subsection \<open>\<^verbatim>\<open>read_whitespace\<close> and \<^verbatim>\<open>read_keyword\<close>\<close>

partial_function (option) whitespace_loop ::
  "reader \<Rightarrow> string \<Rightarrow> (error + reader \<times> string) option" where
  "whitespace_loop r word =
     (if valid r \<and> isspace (peek r) then
        (let r1 = (if peek r = CHR 0x0A then r\<lparr>line := line r + 1, col := - 1\<rparr> else r)
         in case get r1 of
              Inl e \<Rightarrow> Some (Inl e)
            | Inr (c, r2) \<Rightarrow> whitespace_loop r2 (word @ [c]))
      else Some (Inr (r, word)))"

declare whitespace_loop.simps [code]

definition read_whitespace :: "reader \<Rightarrow> (error + reader \<times> string) option" where
  "read_whitespace r = whitespace_loop r []"

partial_function (option) keyword_loop ::
  "reader \<Rightarrow> string \<Rightarrow> (error + reader \<times> string) option" where
  "keyword_loop r word =
     (if valid r \<and> (isalnum (peek r) \<or> peek r = CHR ''_'') then
        (case get r of
           Inl e \<Rightarrow> Some (Inl e)
         | Inr (c, r1) \<Rightarrow> keyword_loop r1 (word @ [c]))
      else Some (Inr (r, word)))"

declare keyword_loop.simps [code]

text \<open>The \<^verbatim>\<open>do ... while\<close> of \<^verbatim>\<open>read_keyword\<close>: the body once, then the loop.\<close>

definition read_keyword :: "reader \<Rightarrow> (error + reader \<times> string) option" where
  "read_keyword r =
     (if \<not> (valid r \<and> (isalpha (peek r) \<or> peek r = CHR ''_'')) then Some (Inl AssertionFailed)
      else case get r of
             Inl e \<Rightarrow> Some (Inl e)
           | Inr (c, r1) \<Rightarrow> keyword_loop r1 [c])"

subsection \<open>\<^verbatim>\<open>read_number\<close>\<close>

text \<open>\<^verbatim>\<open>while (valid() && std::isdigit(peek())) number += get();\<close>\<close>

partial_function (option) digits_loop ::
  "reader \<Rightarrow> string \<Rightarrow> (error + reader \<times> string) option" where
  "digits_loop r number =
     (if valid r \<and> isdigit (peek r) then
        (case get r of
           Inl e \<Rightarrow> Some (Inl e)
         | Inr (c, r1) \<Rightarrow> digits_loop r1 (number @ [c]))
      else Some (Inr (r, number)))"

declare digits_loop.simps [code]

text \<open>The three blocks of \<^verbatim>\<open>read_number\<close>, in the order of the source.\<close>

definition number_integer_part :: "reader \<Rightarrow> (error + reader \<times> string) option" where
  "number_integer_part r =
     (if valid r \<and> peek r = CHR ''0'' then
        (case get r of
           Inl e \<Rightarrow> Some (Inl e)
         | Inr (c, r1) \<Rightarrow>
             if valid r1 \<and> isdigit (peek r1) then Some (Inl LeadingZeros)
             else Some (Inr (r1, [c])))
      else if valid r \<and> isdigit (peek r) then
        (case get r of
           Inl e \<Rightarrow> Some (Inl e)
         | Inr (c, r1) \<Rightarrow> digits_loop r1 [c])
      else Some (Inl ExpectedDigit))"

definition number_fraction_part ::
  "reader \<Rightarrow> string \<Rightarrow> bool \<Rightarrow> (error + reader \<times> string \<times> bool) option" where
  "number_fraction_part r number is_float =
     (if valid r \<and> peek r = CHR ''.'' then
        (case get r of
           Inl e \<Rightarrow> Some (Inl e)
         | Inr (c, r1) \<Rightarrow>
             if \<not> valid r1 \<or> \<not> isdigit (peek r1) then Some (Inl ExpectedDigitAfterDecimal)
             else and_then (digits_loop r1 (number @ [c]))
                    (\<lambda>(r2, number2). Some (Inr (r2, number2, True))))
      else Some (Inr (r, number, is_float)))"

definition number_exponent_part ::
  "reader \<Rightarrow> string \<Rightarrow> bool \<Rightarrow> (error + reader \<times> string \<times> bool) option" where
  "number_exponent_part r number is_float =
     (if valid r \<and> (peek r = CHR ''e'' \<or> peek r = CHR ''E'') then
        (case get r of
           Inl e \<Rightarrow> Some (Inl e)
         | Inr (c, r1) \<Rightarrow>
             and_then
               (if valid r1 \<and> (peek r1 = CHR ''+'' \<or> peek r1 = CHR ''-'') then
                  (case get r1 of
                     Inl e \<Rightarrow> Some (Inl e)
                   | Inr (c1, r2) \<Rightarrow> Some (Inr (r2, number @ [c, c1])))
                else Some (Inr (r1, number @ [c])))
               (\<lambda>(r2, number2).
                  if \<not> valid r2 \<or> \<not> isdigit (peek r2) then Some (Inl ExpectedDigitAfterExponent)
                  else and_then (digits_loop r2 number2)
                         (\<lambda>(r3, number3). Some (Inr (r3, number3, True)))))
      else Some (Inr (r, number, is_float)))"

definition read_number :: "reader \<Rightarrow> (error + reader \<times> string \<times> token_kind) option" where
  "read_number r =
     and_then (number_integer_part r) (\<lambda>(r1, number1).
     and_then (number_fraction_part r1 number1 False) (\<lambda>(r2, number2, is_float2).
     and_then (number_exponent_part r2 number2 is_float2) (\<lambda>(r3, number3, is_float3).
       if number3 = [] then Some (Inl AssertionFailed)
       else Some (Inr (r3, number3, if is_float3 then floating else integer)))))"

subsection \<open>\<^verbatim>\<open>read_string\<close>\<close>

text \<open>\<^verbatim>\<open>std::stoi(hex, nullptr, 16)\<close> on a string of hexadecimal digits.\<close>

definition hex_value :: "char \<Rightarrow> nat" where
  "hex_value c =
     (let n = (of_char c :: nat)
      in if n \<le> 57 then n - 48 else if n \<le> 70 then n - 55 else n - 87)"

definition stoi16 :: "string \<Rightarrow> nat" where
  "stoi16 hex = foldl (\<lambda>a c. a * 16 + hex_value c) 0 hex"

text \<open>
  \<^verbatim>\<open>std::wstring_convert<std::codecvt_utf8<char32_t>, char32_t>::to_bytes\<close> of one code
  point: its UTF-8 encoding. A surrogate code point is encoded like any other code point of
  three bytes.
\<close>

definition to_bytes :: "nat \<Rightarrow> string" where
  "to_bytes cp =
     (if cp < 0x80 then [char_of cp]
      else if cp < 0x800 then [char_of (0xC0 + cp div 0x40), char_of (0x80 + cp mod 0x40)]
      else if cp < 0x10000 then
        [char_of (0xE0 + cp div 0x1000), char_of (0x80 + cp div 0x40 mod 0x40),
         char_of (0x80 + cp mod 0x40)]
      else
        [char_of (0xF0 + cp div 0x40000), char_of (0x80 + cp div 0x1000 mod 0x40),
         char_of (0x80 + cp div 0x40 mod 0x40), char_of (0x80 + cp mod 0x40)])"

text \<open>
  The \<^verbatim>\<open>for\<close> loop of the \<^verbatim>\<open>'u'\<close> case; the first argument counts the iterations that
  remain.
\<close>

fun read_hex :: "nat \<Rightarrow> reader \<Rightarrow> string \<Rightarrow> error + reader \<times> string" where
  "read_hex 0 r hex = Inr (r, hex)"
| "read_hex (Suc n) r hex =
     (case next r of
        Inl e \<Rightarrow> Inl e
      | Inr r1 \<Rightarrow>
          if \<not> valid r1 \<or> \<not> isxdigit (peek r1) then Inl InvalidUnicodeEscape
          else read_hex n r1 (hex @ [peek r1]))"

text \<open>The \<^verbatim>\<open>switch (current)\<close> of an escape sequence.\<close>

definition string_escape :: "char \<Rightarrow> reader \<Rightarrow> string \<Rightarrow> error + reader \<times> string" where
  "string_escape current r val =
     (if current = CHR 0x22 then Inr (r, val @ [CHR 0x22])
      else if current = CHR 0x5C then Inr (r, val @ [CHR 0x5C])
      else if current = CHR ''/'' then Inr (r, val @ [CHR ''/''])
      else if current = CHR ''b'' then Inr (r, val @ [CHR 0x08])
      else if current = CHR ''f'' then Inr (r, val @ [CHR 0x0C])
      else if current = CHR ''n'' then Inr (r, val @ [CHR 0x0A])
      else if current = CHR ''r'' then Inr (r, val @ [CHR 0x0D])
      else if current = CHR ''t'' then Inr (r, val @ [CHR 0x09])
      else if current = CHR ''u'' then
        (case read_hex 4 r [] of
           Inl e \<Rightarrow> Inl e
         | Inr (r1, hex) \<Rightarrow> Inr (r1, val @ to_bytes (stoi16 hex)))
      else Inl InvalidEscape)"

text \<open>
  One pass through the body of the \<^verbatim>\<open>do ... while (valid())\<close> loop. The first component
  of the result tells whether the body left the loop through \<^verbatim>\<open>break\<close>.
\<close>

definition string_step ::
  "char \<Rightarrow> reader \<Rightarrow> string \<Rightarrow> bool \<Rightarrow> error + bool \<times> reader \<times> string \<times> bool" where
  "string_step quote r val is_backslash =
     (let current = peek r
      in if is_backslash then
           (case string_escape current r val of
              Inl e \<Rightarrow> Inl e
            | Inr (r1, val1) \<Rightarrow>
                (case next r1 of
                   Inl e \<Rightarrow> Inl e
                 | Inr r2 \<Rightarrow> Inr (False, r2, val1, False)))
         else if current = CHR 0x5C then
           (case next r of
              Inl e \<Rightarrow> Inl e
            | Inr r2 \<Rightarrow> Inr (False, r2, val, True))
         else if current = quote then Inr (True, r, val, is_backslash)
         else
           (case next r of
              Inl e \<Rightarrow> Inl e
            | Inr r2 \<Rightarrow> Inr (False, r2, val @ [current], is_backslash)))"

partial_function (option) string_loop ::
  "char \<Rightarrow> reader \<Rightarrow> string \<Rightarrow> bool \<Rightarrow> (error + reader \<times> string) option" where
  "string_loop quote r val is_backslash =
     (case string_step quote r val is_backslash of
        Inl e \<Rightarrow> Some (Inl e)
      | Inr (left, r1, val1, is_backslash1) \<Rightarrow>
          if \<not> left \<and> valid r1 then string_loop quote r1 val1 is_backslash1
          else Some (Inr (r1, val1)))"

declare string_loop.simps [code]

definition read_string :: "reader \<Rightarrow> (error + reader \<times> string) option" where
  "read_string r =
     (if \<not> (valid r \<and> (peek r = CHR 0x22 \<or> peek r = CHR 0x27)) then Some (Inl AssertionFailed)
      else case get r of
             Inl e \<Rightarrow> Some (Inl e)
           | Inr (quote, r1) \<Rightarrow>
               and_then (string_loop quote r1 [] False) (\<lambda>(r2, val).
                 if \<not> valid r2 \<or> peek r2 \<noteq> quote then Some (Inl MissingClosingQuote)
                 else case next r2 of
                        Inl e \<Rightarrow> Some (Inl e)
                      | Inr r3 \<Rightarrow> Some (Inr (r3, val))))"

subsection \<open>\<^verbatim>\<open>jump_to\<close> and \<^verbatim>\<open>next_token\<close>\<close>

text \<open>
  \<^verbatim>\<open>jump_to\<close> returns the reader after the jump, or the error. (On the second error the
  source has already assigned \<^verbatim>\<open>shift\<close>; the result does not keep the reader of a failed
  call.)
\<close>

definition jump_to :: "reader \<Rightarrow> int \<Rightarrow> int \<Rightarrow> int \<Rightarrow> error + reader" where
  "jump_to r position line' col' =
     (if position < 0 then Inl PositionOutOfRange
      else if \<not> is_open (ifs r) then
        (let r1 = r\<lparr>shift := nat position\<rparr>
         in if shift r1 > length (buffer r1) then Inl PositionOutOfRange
            else Inr (r1\<lparr>line := line', col := col'\<rparr>))
      else
        (case refill_buffer (r\<lparr>ifs := ifs_seekg (ifs r) position\<rparr>) of
           Inl e \<Rightarrow> Inl e
         | Inr r1 \<Rightarrow> Inr (r1\<lparr>line := line', col := col'\<rparr>)))"

text \<open>
  \<^verbatim>\<open>next_token\<close> returns the token, the lexeme (the out-parameter, cleared on entry) and
  the reader afterwards.
\<close>

definition next_token :: "reader \<Rightarrow> (error + token \<times> string \<times> reader) option" where
  "next_token r =
     (let position = (line r, col r)
      in if \<not> valid r then
           Some (Inr (\<lparr>kind = eof, tok_line = fst position, tok_col = snd position\<rparr>, [], r))
         else
           and_then
             (if peek r = CHR ''('' \<or> peek r = CHR ''['' \<or> peek r = CHR ''{'' then
                Some (Inr (open_bracket, [], r))
              else if peek r = CHR '')'' \<or> peek r = CHR '']'' \<or> peek r = CHR ''}'' then
                Some (Inr (close_bracket, [], r))
              else if peek r = CHR '','' \<or> peek r = CHR '';'' \<or> peek r = CHR '':'' then
                Some (Inr (separator, [], r))
              else if isalpha (peek r) \<or> peek r = CHR ''_'' then
                and_then (read_keyword r) (\<lambda>(r1, lexeme). Some (Inr (keyword, lexeme, r1)))
              else if isdigit (peek r) then
                and_then (read_number r) (\<lambda>(r1, lexeme, t). Some (Inr (t, lexeme, r1)))
              else if peek r = CHR 0x27 \<or> peek r = CHR 0x22 then
                and_then (read_string r) (\<lambda>(r1, lexeme). Some (Inr (string, lexeme, r1)))
              else if isspace (peek r) then
                and_then (read_whitespace r) (\<lambda>(r1, lexeme). Some (Inr (whitespace, lexeme, r1)))
              else Some (Inr (special_character, [], r)))
             (\<lambda>(t, lexeme, r1).
                and_then
                  (if lexeme = [] then
                     (case get r1 of
                        Inl e \<Rightarrow> Some (Inl e)
                      | Inr (c, r2) \<Rightarrow> Some (Inr ([c], r2)))
                   else Some (Inr (lexeme, r1)))
                  (\<lambda>(lexeme1, r2).
                     Some (Inr (\<lparr>kind = t, tok_line = fst position, tok_col = snd position\<rparr>,
                                lexeme1, r2)))))"

subsection \<open>The consumer's loop\<close>

text \<open>
  Calling \<^verbatim>\<open>next_token\<close> until it returns a token of kind \<^verbatim>\<open>eof\<close>, and collecting the
  tokens before it with their lexemes.
\<close>

partial_function (option) tokens_until_eof ::
  "reader \<Rightarrow> (error + (token \<times> string) list) option" where
  "tokens_until_eof r =
     (case next_token r of
        None \<Rightarrow> None
      | Some (Inl e) \<Rightarrow> Some (Inl e)
      | Some (Inr (t, lexeme, r1)) \<Rightarrow>
          if kind t = eof then Some (Inr [])
          else Option.bind (tokens_until_eof r1)
                 (\<lambda>res. Some (case res of Inl e \<Rightarrow> Inl e | Inr ts \<Rightarrow> Inr ((t, lexeme) # ts))))"

declare tokens_until_eof.simps [code]

text \<open>
  Calling \<^verbatim>\<open>next_token\<close> again and again: the result of call number \<open>n + 1\<close>, or the
  first error.
\<close>

fun next_token_times :: "nat \<Rightarrow> reader \<Rightarrow> (error + token \<times> string \<times> reader) option" where
  "next_token_times 0 r = next_token r"
| "next_token_times (Suc n) r =
     (case next_token r of
        None \<Rightarrow> None
      | Some (Inl e) \<Rightarrow> Some (Inl e)
      | Some (Inr (t, lexeme, r1)) \<Rightarrow> next_token_times n r1)"

section \<open>Specification-level functions\<close>

text \<open>
  These functions are not part of the source. They say, on the list of bytes that the
  reader has not consumed yet, what the specification says the tokenizer does with them;
  the statements below compare the source with them.
\<close>

text \<open>
  The window of a reader is final when \<^verbatim>\<open>refill_buffer\<close> returns at once: no file is open
  (a reader over a string buffer), or the file is at its end.
\<close>

definition final_window :: "reader \<Rightarrow> bool" where
  "final_window r = (\<not> is_open (ifs r) \<or> eofbit (ifs r))"

text \<open>The bytes of the window from the cursor on, and the reader after \<open>n\<close> more bytes.\<close>

definition unread :: "reader \<Rightarrow> string" where
  "unread r = drop (shift r) (buffer r)"

definition advance :: "nat \<Rightarrow> reader \<Rightarrow> reader" where
  "advance n r = r\<lparr>shift := shift r + n, col := col r + int n\<rparr>"

text \<open>A keyword: the run of letters, digits and underscores at the cursor.\<close>

definition keyword_spec :: "string \<Rightarrow> string" where
  "keyword_spec xs = takeWhile (\<lambda>c. isalnum c \<or> c = CHR ''_'') xs"

text \<open>
  Position bookkeeping of a whitespace run, byte by byte: a newline starts the next line at
  column 0, any other byte is one column further.
\<close>

definition whitespace_position :: "int \<times> int \<Rightarrow> char \<Rightarrow> int \<times> int" where
  "whitespace_position p ch = (if ch = CHR 0x0A then (fst p + 1, 0) else (fst p, snd p + 1))"

definition consume_whitespace :: "string \<Rightarrow> reader \<Rightarrow> reader" where
  "consume_whitespace ws r =
     (let p = foldl whitespace_position (line r, col r) ws
      in r\<lparr>shift := shift r + length ws, line := fst p, col := snd p\<rparr>)"

text \<open>
  The numeric grammar of the specification, part by part; each function returns the text
  of its part at the head of the input, or the error.
  \<^enum> The integer part is the single digit 0, or a run of digits that does not start with 0;
    a 0 followed by another digit is an error.
  \<^enum> The fraction, when there is one, is a dot and one or more digits; a dot that no digit
    follows is an error.
  \<^enum> The exponent, when there is one, is \<open>e\<close> or \<open>E\<close>, an optional sign, and one or more
    digits; a missing digit is an error.
  \<^enum> The number is \<open>integer\<close> when it has neither fraction nor exponent, and \<open>floating\<close>
    otherwise.
\<close>

fun integer_part_spec :: "string \<Rightarrow> error + string" where
  "integer_part_spec [] = Inl ExpectedDigit"
| "integer_part_spec (c # cs) =
     (if c = CHR ''0'' then
        (case cs of
           [] \<Rightarrow> Inr [c]
         | d # _ \<Rightarrow> if isdigit d then Inl LeadingZeros else Inr [c])
      else if isdigit c then Inr (takeWhile isdigit (c # cs))
      else Inl ExpectedDigit)"

fun fraction_part_spec :: "string \<Rightarrow> error + string" where
  "fraction_part_spec [] = Inr []"
| "fraction_part_spec (c # cs) =
     (if c = CHR ''.'' then
        (case cs of
           [] \<Rightarrow> Inl ExpectedDigitAfterDecimal
         | d # _ \<Rightarrow> if isdigit d then Inr (c # takeWhile isdigit cs)
                    else Inl ExpectedDigitAfterDecimal)
      else Inr [])"

fun exponent_part_spec :: "string \<Rightarrow> error + string" where
  "exponent_part_spec [] = Inr []"
| "exponent_part_spec (c # cs) =
     (if c = CHR ''e'' \<or> c = CHR ''E'' then
        (let sign = (case cs of
                       [] \<Rightarrow> []
                     | s # _ \<Rightarrow> if s = CHR ''+'' \<or> s = CHR ''-'' then [s] else []);
             ds = drop (length sign) cs
         in case ds of
              [] \<Rightarrow> Inl ExpectedDigitAfterExponent
            | d # _ \<Rightarrow> if isdigit d then Inr (c # sign @ takeWhile isdigit ds)
                       else Inl ExpectedDigitAfterExponent)
      else Inr [])"

definition number_spec :: "string \<Rightarrow> error + token_kind \<times> string" where
  "number_spec xs =
     (case integer_part_spec xs of
        Inl e \<Rightarrow> Inl e
      | Inr ip \<Rightarrow>
          (case fraction_part_spec (drop (length ip) xs) of
             Inl e \<Rightarrow> Inl e
           | Inr fp \<Rightarrow>
               (case exponent_part_spec (drop (length ip + length fp) xs) of
                  Inl e \<Rightarrow> Inl e
                | Inr ep \<Rightarrow>
                    Inr (if fp = [] \<and> ep = [] then integer else floating, ip @ fp @ ep))))"

text \<open>
  The same grammar as a property of a text: \<open>number_lexeme k s\<close> holds when \<open>s\<close> is an
  integer part, then nothing or a fraction, then nothing or an exponent, and \<open>k\<close> is the
  kind that the grammar gives to it.
\<close>

definition is_integer_part :: "string \<Rightarrow> bool" where
  "is_integer_part s = (s = ''0'' \<or> (s \<noteq> [] \<and> hd s \<noteq> CHR ''0'' \<and> list_all isdigit s))"

definition is_fraction_part :: "string \<Rightarrow> bool" where
  "is_fraction_part s =
     (case s of
        [] \<Rightarrow> False
      | c # ds \<Rightarrow> c = CHR ''.'' \<and> ds \<noteq> [] \<and> list_all isdigit ds)"

definition is_exponent_part :: "string \<Rightarrow> bool" where
  "is_exponent_part s =
     (case s of
        [] \<Rightarrow> False
      | m # t \<Rightarrow>
          (m = CHR ''e'' \<or> m = CHR ''E'') \<and>
          (let ds = (case t of
                       [] \<Rightarrow> []
                     | x # t' \<Rightarrow> if x = CHR ''+'' \<or> x = CHR ''-'' then t' else t)
           in ds \<noteq> [] \<and> list_all isdigit ds))"

definition number_lexeme :: "token_kind \<Rightarrow> string \<Rightarrow> bool" where
  "number_lexeme k s =
     (\<exists>ip fp ep. s = ip @ fp @ ep \<and> is_integer_part ip \<and>
        (fp = [] \<or> is_fraction_part fp) \<and> (ep = [] \<or> is_exponent_part ep) \<and>
        k = (if fp = [] \<and> ep = [] then integer else floating))"

text \<open>The kind of a token of one byte, by its byte.\<close>

definition single_kind :: "char \<Rightarrow> token_kind" where
  "single_kind c =
     (if c = CHR ''('' \<or> c = CHR ''['' \<or> c = CHR ''{'' then open_bracket
      else if c = CHR '')'' \<or> c = CHR '']'' \<or> c = CHR ''}'' then close_bracket
      else if c = CHR '','' \<or> c = CHR '';'' \<or> c = CHR '':'' then separator
      else special_character)"

text \<open>
  The string grammar of the specification. \<open>simple_escape\<close> is the character that the
  byte after a backslash denotes. \<open>string_spec q xs\<close> reads the bytes \<open>xs\<close> after the
  opening quote \<open>q\<close>: it returns the decoded value and the number of bytes up to and
  including the closing quote, or the error.
\<close>

fun simple_escape :: "char \<Rightarrow> char option" where
  "simple_escape e =
     (if e = CHR 0x22 then Some (CHR 0x22)
      else if e = CHR 0x5C then Some (CHR 0x5C)
      else if e = CHR ''/'' then Some (CHR ''/'')
      else if e = CHR ''b'' then Some (CHR 0x08)
      else if e = CHR ''f'' then Some (CHR 0x0C)
      else if e = CHR ''n'' then Some (CHR 0x0A)
      else if e = CHR ''r'' then Some (CHR 0x0D)
      else if e = CHR ''t'' then Some (CHR 0x09)
      else None)"

fun string_spec :: "char \<Rightarrow> string \<Rightarrow> error + string \<times> nat" where
  "string_spec q [] = Inl MissingClosingQuote"
| "string_spec q (c # cs) =
     (if c = CHR 0x5C then
        (case cs of
           [] \<Rightarrow> Inl MissingClosingQuote
         | e # es \<Rightarrow>
             if e = CHR ''u'' then
               (if length es \<ge> 4 \<and> list_all isxdigit (take 4 es) then
                  (case string_spec q (drop 4 es) of
                     Inl err \<Rightarrow> Inl err
                   | Inr (v, n) \<Rightarrow> Inr (to_bytes (stoi16 (take 4 es)) @ v, n + 6))
                else Inl InvalidUnicodeEscape)
             else
               (case simple_escape e of
                  None \<Rightarrow> Inl InvalidEscape
                | Some d \<Rightarrow>
                    (case string_spec q es of
                       Inl err \<Rightarrow> Inl err
                     | Inr (v, n) \<Rightarrow> Inr (d # v, n + 2))))
      else if c = q then Inr ([], 1)
      else
        (case string_spec q cs of
           Inl err \<Rightarrow> Inl err
         | Inr (v, n) \<Rightarrow> Inr (c # v, n + 1)))"


text \<open>
  The loop of \<^verbatim>\<open>read_string\<close> against \<open>string_spec\<close>: the loop stops at the closing quote
  with the decoded value, or raises the error of an escape sequence, or runs into the end
  of the input (the error is then raised after the loop).
\<close>

definition string_loop_agrees :: "char \<Rightarrow> reader \<Rightarrow> string \<Rightarrow> bool \<Rightarrow> bool" where
  "string_loop_agrees q r val b =
     (case string_spec q ((if b then [CHR 0x5C] else []) @ unread r) of
        Inr (v, n) \<Rightarrow>
          string_loop q r val b = Some (Inr (advance (n - (if b then 2 else 1)) r, val @ v))
      | Inl e \<Rightarrow>
          if e = MissingClosingQuote then
            (\<exists>r' val'. string_loop q r val b = Some (Inr (r', val')) \<and> \<not> valid r')
          else string_loop q r val b = Some (Inl e))"

text \<open>
  What one call of \<^verbatim>\<open>next_token\<close> does to a reader whose window is final: unless it
  raises an error, the token is not \<open>eof\<close>, the window is the same and still final, the
  cursor has moved on, and the lexeme of a token that is not a string is the text consumed.
\<close>

definition token_step :: "reader \<Rightarrow> (error + token \<times> string \<times> reader) \<Rightarrow> bool" where
  "token_step r res =
     (case res of
        Inl e \<Rightarrow> True
      | Inr (t, lexeme, r') \<Rightarrow>
          kind t \<noteq> eof \<and> final_window r' \<and> buffer r' = buffer r \<and> shift r < shift r' \<and>
          (kind t = string \<or> unread r = lexeme @ unread r'))"

section \<open>The tokenizer on a final window\<close>

text \<open>
  On a final window \<^verbatim>\<open>refill_buffer\<close> changes nothing, so \<^verbatim>\<open>next\<close> only moves the cursor,
  and each loop of the tokenizer can be compared with a function on the unread bytes.
\<close>

subsection \<open>The cursor\<close>

lemma refill_final_window: "final_window r \<Longrightarrow> refill_buffer r = Inr r"
  by (simp add: refill_buffer_def final_window_def)

lemma valid_unread: "valid r \<longleftrightarrow> unread r \<noteq> []"
  by (auto simp add: valid_def unread_def)

lemma peek_unread: "valid r \<Longrightarrow> peek r = hd (unread r)"
  by (simp add: valid_def peek_def unread_def hd_drop_conv_nth)

lemma peek_invalid: "\<not> valid r \<Longrightarrow> peek r = CHR 0x00"
  by (auto simp add: valid_def peek_def)

lemma advance_simps [simp]:
  "buffer (advance n r) = buffer r" "ifs (advance n r) = ifs r"
  "shift (advance n r) = shift r + n" "col (advance n r) = col r + int n"
  "line (advance n r) = line r" "final_window (advance n r) = final_window r"
  "offset (advance n r) = offset r" "max_buffer_size (advance n r) = max_buffer_size r"
  by (simp_all add: advance_def final_window_def)

lemma advance_0 [simp]: "advance 0 r = r"
  by (simp add: advance_def)

lemma advance_advance [simp]: "advance m (advance n r) = advance (n + m) r"
  by (simp add: advance_def add.assoc)

lemma unread_advance [simp]: "unread (advance n r) = drop n (unread r)"
  by (simp add: unread_def add.commute)

lemma next_final_window:
  "final_window r \<Longrightarrow> buffer r \<noteq> [] \<Longrightarrow> next r = Inr (advance 1 r)"
  by (simp add: next_def Let_def refill_final_window advance_def final_window_def)

lemma valid_buffer: "valid r \<Longrightarrow> buffer r \<noteq> []"
  by (simp add: valid_def)

lemma get_final_window:
  "final_window r \<Longrightarrow> valid r \<Longrightarrow> get r = Inr (hd (unread r), advance 1 r)"
  by (simp add: get_def next_final_window valid_buffer peek_unread)

subsection \<open>Digits, keywords and whitespace\<close>

lemma digits_loop_final_window:
  "final_window r \<Longrightarrow>
   digits_loop r number =
     Some (Inr (advance (length (takeWhile isdigit (unread r))) r,
                number @ takeWhile isdigit (unread r)))"
proof (induction "length (unread r)" arbitrary: r number)
  case 0
  then have "\<not> valid r" by (simp add: valid_unread)
  with 0 show ?case
    by (subst digits_loop.simps) (simp add: valid_unread)
next
  case (Suc n)
  then obtain c cs where u: "unread r = c # cs"
    by (cases "unread r") auto
  then have v: "valid r" by (simp add: valid_unread)
  show ?case
  proof (cases "isdigit c")
    case True
    have "n = length (unread (advance 1 r))" using Suc.hyps(2) u by simp
    from Suc.hyps(1) [OF this, of "number @ [c]"] Suc.prems True u v show ?thesis
      by (subst digits_loop.simps) (simp add: get_final_window peek_unread drop_Suc)
  next
    case False
    with u v show ?thesis
      by (subst digits_loop.simps) (simp add: peek_unread)
  qed
qed

lemma keyword_loop_final_window:
  "final_window r \<Longrightarrow>
   keyword_loop r word =
     Some (Inr (advance (length (takeWhile (\<lambda>c. isalnum c \<or> c = CHR ''_'') (unread r))) r,
                word @ takeWhile (\<lambda>c. isalnum c \<or> c = CHR ''_'') (unread r)))"
proof (induction "length (unread r)" arbitrary: r word)
  case 0
  then have "\<not> valid r" by (simp add: valid_unread)
  with 0 show ?case
    by (subst keyword_loop.simps) (simp add: valid_unread)
next
  case (Suc n)
  then obtain c cs where u: "unread r = c # cs"
    by (cases "unread r") auto
  then have v: "valid r" by (simp add: valid_unread)
  show ?case
  proof (cases "isalnum c \<or> c = CHR ''_''")
    case True
    have "n = length (unread (advance 1 r))" using Suc.hyps(2) u by simp
    from Suc.hyps(1) [OF this, of "word @ [c]"] Suc.prems True u v show ?thesis
      by (subst keyword_loop.simps) (auto simp add: get_final_window peek_unread drop_Suc)
  next
    case False
    with u v show ?thesis
      by (subst keyword_loop.simps) (simp add: peek_unread)
  qed
qed

lemma read_keyword_final_window:
  assumes "final_window r" "valid r" "isalpha (peek r) \<or> peek r = CHR ''_''"
  shows "read_keyword r =
           Some (Inr (advance (length (keyword_spec (unread r))) r, keyword_spec (unread r)))"
proof -
  from assms(2) obtain c cs where u: "unread r = c # cs"
    by (cases "unread r") (auto simp add: valid_unread)
  with assms have c: "isalnum c \<or> c = CHR ''_''"
    by (auto simp add: peek_unread isalnum_def)
  from assms u c show ?thesis
    by (simp add: read_keyword_def get_final_window keyword_loop_final_window keyword_spec_def
        drop_Suc)
qed

lemma consume_whitespace_Nil [simp]: "consume_whitespace [] r = r"
  by (simp add: consume_whitespace_def)

lemma whitespace_loop_final_window:
  "final_window r \<Longrightarrow>
   whitespace_loop r word =
     Some (Inr (consume_whitespace (takeWhile isspace (unread r)) r,
                word @ takeWhile isspace (unread r)))"
proof (induction "length (unread r)" arbitrary: r word)
  case 0
  then have "\<not> valid r" by (simp add: valid_unread)
  with 0 show ?case
    by (subst whitespace_loop.simps) (simp add: valid_unread)
next
  case (Suc n)
  then obtain c cs where u: "unread r = c # cs"
    by (cases "unread r") auto
  then have v: "valid r" by (simp add: valid_unread)
  show ?case
  proof (cases "isspace c")
    case True
    define r1 where "r1 = (if c = CHR 0x0A then r\<lparr>line := line r + 1, col := - 1\<rparr> else r)"
    have u1: "unread r1 = c # cs" and b1: "final_window r1" and v1: "valid r1"
      using u v Suc.prems by (auto simp add: r1_def unread_def final_window_def valid_def)
    have g: "get r1 = Inr (c, advance 1 r1)"
      using get_final_window [OF b1 v1] u1 by simp
    have n: "n = length (unread (advance 1 r1))" using Suc.hyps(2) u u1 by simp
    have b2: "final_window (advance 1 r1)" using b1 by simp
    have c: "consume_whitespace (takeWhile isspace cs) (advance 1 r1)
             = consume_whitespace (c # takeWhile isspace cs) r"
      by (simp add: consume_whitespace_def r1_def advance_def whitespace_position_def Let_def)
    have "whitespace_loop r word = whitespace_loop (advance 1 r1) (word @ [c])"
      using True u v g by (subst whitespace_loop.simps) (simp add: peek_unread r1_def Let_def)
    also have "\<dots> = Some (Inr (consume_whitespace (takeWhile isspace cs) (advance 1 r1),
                (word @ [c]) @ takeWhile isspace cs))"
      using Suc.hyps(1) [OF n b2, of "word @ [c]"] u1 by (simp add: drop_Suc)
    finally show ?thesis using True u c by simp
  next
    case False
    with u v show ?thesis
      by (subst whitespace_loop.simps) (simp add: peek_unread)
  qed
qed

subsection \<open>Numbers\<close>

lemma number_integer_part_final_window:
  assumes "final_window r"
  shows "number_integer_part r =
           Some (case integer_part_spec (unread r) of
                   Inl e \<Rightarrow> Inl e
                 | Inr ip \<Rightarrow> Inr (advance (length ip) r, ip))"
proof (cases "unread r")
  case Nil
  then show ?thesis by (simp add: number_integer_part_def valid_unread)
next
  case (Cons c cs)
  then have v: "valid r" by (simp add: valid_unread)
  have z: "\<not> isdigit (CHR 0x00)" by (simp add: isdigit_def)
  show ?thesis
  proof (cases "c = CHR ''0''")
    case True
    with Cons v assms show ?thesis
      by (cases cs)
         (simp_all add: number_integer_part_def peek_unread get_final_window valid_unread drop_Suc)
  next
    case False
    with Cons v assms show ?thesis
      by (simp add: number_integer_part_def peek_unread get_final_window
          digits_loop_final_window drop_Suc)
  qed
qed

lemma number_fraction_part_final_window:
  assumes "final_window r"
  shows "number_fraction_part r number is_float =
           Some (case fraction_part_spec (unread r) of
                   Inl e \<Rightarrow> Inl e
                 | Inr fp \<Rightarrow> Inr (advance (length fp) r, number @ fp, is_float \<or> fp \<noteq> []))"
proof (cases "unread r")
  case Nil
  then show ?thesis by (simp add: number_fraction_part_def valid_unread)
next
  case (Cons c cs)
  then have v: "valid r" by (simp add: valid_unread)
  with Cons assms show ?thesis
    by (cases cs)
       (simp_all add: number_fraction_part_def peek_unread get_final_window valid_unread
          digits_loop_final_window drop_Suc and_then_def)
qed

lemma number_exponent_part_final_window:
  assumes "final_window r"
  shows "number_exponent_part r number is_float =
           Some (case exponent_part_spec (unread r) of
                   Inl e \<Rightarrow> Inl e
                 | Inr ep \<Rightarrow> Inr (advance (length ep) r, number @ ep, is_float \<or> ep \<noteq> []))"
proof (cases "unread r")
  case Nil
  then show ?thesis by (simp add: number_exponent_part_def valid_unread)
next
  case (Cons c cs)
  then have v: "valid r" by (simp add: valid_unread)
  show ?thesis
  proof (cases "c = CHR ''e'' \<or> c = CHR ''E''")
    case False
    with Cons v show ?thesis by (simp add: number_exponent_part_def peek_unread)
  next
    case e: True
    show ?thesis
    proof (cases cs)
      case Nil
      with e Cons v assms show ?thesis
        by (simp add: number_exponent_part_def peek_unread get_final_window valid_unread
            drop_Suc and_then_def)
    next
      case cs: (Cons s ss)
      show ?thesis
      proof (cases "s = CHR ''+'' \<or> s = CHR ''-''")
        case True
        with cs e Cons v assms show ?thesis
          by (cases ss)
             (simp_all add: number_exponent_part_def peek_unread get_final_window valid_unread
                digits_loop_final_window drop_Suc and_then_def)
      next
        case False
        with cs e Cons v assms show ?thesis
          by (simp add: number_exponent_part_def peek_unread get_final_window valid_unread
              digits_loop_final_window drop_Suc and_then_def)
      qed
    qed
  qed
qed

lemma integer_part_spec_nonempty: "integer_part_spec xs = Inr ip \<Longrightarrow> ip \<noteq> []"
  by (cases xs) (auto split: if_splits list.splits)

lemma read_number_final_window:
  assumes "final_window r"
  shows "read_number r =
           Some (case number_spec (unread r) of
                   Inl e \<Rightarrow> Inl e
                 | Inr (k, lexeme) \<Rightarrow> Inr (advance (length lexeme) r, lexeme, k))"
proof (cases "integer_part_spec (unread r)")
  case (Inl e)
  with assms show ?thesis
    by (simp add: read_number_def number_spec_def number_integer_part_final_window and_then_def)
next
  case ip: (Inr ip)
  then have ne: "ip \<noteq> []" by (rule integer_part_spec_nonempty)
  show ?thesis
  proof (cases "fraction_part_spec (drop (length ip) (unread r))")
    case (Inl e)
    with ip assms show ?thesis
      by (simp add: read_number_def number_spec_def number_integer_part_final_window
          number_fraction_part_final_window and_then_def)
  next
    case fp: (Inr fp)
    show ?thesis
    proof (cases "exponent_part_spec (drop (length ip + length fp) (unread r))")
      case (Inl e)
      with ip fp assms show ?thesis
        by (simp add: read_number_def number_spec_def number_integer_part_final_window
            number_fraction_part_final_window number_exponent_part_final_window and_then_def
            add.commute)
    next
      case (Inr ep)
      with ip fp ne assms show ?thesis
        by (auto simp add: read_number_def number_spec_def number_integer_part_final_window
            number_fraction_part_final_window number_exponent_part_final_window and_then_def
            add.commute add.assoc)
    qed
  qed
qed

subsection \<open>The branches of \<^verbatim>\<open>next_token\<close> for numbers, keywords, whitespace and single bytes\<close>

lemma isdigit_class:
  "isdigit c \<Longrightarrow>
     c \<noteq> CHR ''('' \<and> c \<noteq> CHR ''['' \<and> c \<noteq> CHR ''{'' \<and> c \<noteq> CHR '')'' \<and> c \<noteq> CHR '']'' \<and>
     c \<noteq> CHR ''}'' \<and> c \<noteq> CHR '','' \<and> c \<noteq> CHR '';'' \<and> c \<noteq> CHR '':'' \<and> \<not> isalpha c \<and>
     c \<noteq> CHR ''_''"
  by (auto simp add: isdigit_def isalpha_def Let_def)

lemma isalpha_class:
  "isalpha c \<or> c = CHR ''_'' \<Longrightarrow>
     c \<noteq> CHR ''('' \<and> c \<noteq> CHR ''['' \<and> c \<noteq> CHR ''{'' \<and> c \<noteq> CHR '')'' \<and> c \<noteq> CHR '']'' \<and>
     c \<noteq> CHR ''}'' \<and> c \<noteq> CHR '','' \<and> c \<noteq> CHR '';'' \<and> c \<noteq> CHR '':''"
  by (auto simp add: isalpha_def Let_def)

lemma isspace_class:
  "isspace c \<Longrightarrow>
     c \<noteq> CHR ''('' \<and> c \<noteq> CHR ''['' \<and> c \<noteq> CHR ''{'' \<and> c \<noteq> CHR '')'' \<and> c \<noteq> CHR '']'' \<and>
     c \<noteq> CHR ''}'' \<and> c \<noteq> CHR '','' \<and> c \<noteq> CHR '';'' \<and> c \<noteq> CHR '':'' \<and> \<not> isalpha c \<and>
     c \<noteq> CHR ''_'' \<and> \<not> isdigit c \<and> c \<noteq> CHR 0x27 \<and> c \<noteq> CHR 0x22"
  by (auto simp add: isspace_def isalpha_def isdigit_def Let_def)

lemma quote_class:
  "c = CHR 0x27 \<or> c = CHR 0x22 \<Longrightarrow>
     c \<noteq> CHR ''('' \<and> c \<noteq> CHR ''['' \<and> c \<noteq> CHR ''{'' \<and> c \<noteq> CHR '')'' \<and> c \<noteq> CHR '']'' \<and>
     c \<noteq> CHR ''}'' \<and> c \<noteq> CHR '','' \<and> c \<noteq> CHR '';'' \<and> c \<noteq> CHR '':'' \<and> \<not> isalpha c \<and>
     c \<noteq> CHR ''_'' \<and> \<not> isdigit c"
  by (auto simp add: isalpha_def isdigit_def Let_def)

lemma number_spec_nonempty: "number_spec xs = Inr (k, lexeme) \<Longrightarrow> lexeme \<noteq> []"
  by (auto simp add: number_spec_def split: sum.splits dest: integer_part_spec_nonempty)

lemma next_token_number:
  assumes "final_window r" "valid r" "isdigit (peek r)"
  shows "next_token r =
           Some (case number_spec (unread r) of
                   Inl e \<Rightarrow> Inl e
                 | Inr (k, lexeme) \<Rightarrow>
                     Inr (\<lparr>kind = k, tok_line = line r, tok_col = col r\<rparr>, lexeme,
                          advance (length lexeme) r))"
proof (cases "number_spec (unread r)")
  case (Inl e)
  with assms isdigit_class [OF assms(3)] show ?thesis
    by (simp add: next_token_def read_number_final_window and_then_def)
next
  case (Inr p)
  then obtain k lexeme where p: "p = (k, lexeme)" by (cases p) auto
  with Inr have "lexeme \<noteq> []" by (auto dest: number_spec_nonempty)
  with Inr p assms isdigit_class [OF assms(3)] show ?thesis
    by (simp add: next_token_def read_number_final_window and_then_def)
qed

lemma next_token_keyword:
  assumes "final_window r" "valid r" "isalpha (peek r) \<or> peek r = CHR ''_''"
  shows "next_token r =
           Some (Inr (\<lparr>kind = keyword, tok_line = line r, tok_col = col r\<rparr>,
                      keyword_spec (unread r), advance (length (keyword_spec (unread r))) r))"
proof -
  from assms(2) obtain c cs where u: "unread r = c # cs"
    by (cases "unread r") (auto simp add: valid_unread)
  with assms have c: "isalnum c \<or> c = CHR ''_''"
    by (auto simp add: peek_unread isalnum_def)
  then have "keyword_spec (unread r) \<noteq> []" using u by (auto simp add: keyword_spec_def)
  with assms isalpha_class [OF assms(3)] show ?thesis
    by (simp add: next_token_def read_keyword_final_window and_then_def)
qed

lemma next_token_whitespace:
  assumes "final_window r" "valid r" "isspace (peek r)"
  shows "next_token r =
           Some (Inr (\<lparr>kind = whitespace, tok_line = line r, tok_col = col r\<rparr>,
                      takeWhile isspace (unread r),
                      consume_whitespace (takeWhile isspace (unread r)) r))"
proof -
  from assms(2) obtain c cs where u: "unread r = c # cs"
    by (cases "unread r") (auto simp add: valid_unread)
  with assms have "takeWhile isspace (unread r) \<noteq> []"
    by (auto simp add: peek_unread)
  with assms isspace_class [OF assms(3)] show ?thesis
    by (simp add: next_token_def read_whitespace_def whitespace_loop_final_window and_then_def)
qed

lemma next_token_single:
  assumes "final_window r" "valid r"
    "\<not> (isalpha (peek r) \<or> peek r = CHR ''_'')" "\<not> isdigit (peek r)"
    "\<not> (peek r = CHR 0x27 \<or> peek r = CHR 0x22)" "\<not> isspace (peek r)"
  shows "next_token r =
           Some (Inr (\<lparr>kind = single_kind (peek r), tok_line = line r, tok_col = col r\<rparr>,
                      [peek r], advance 1 r))"
  using assms
  by (simp add: next_token_def and_then_def get_final_window single_kind_def peek_unread)

subsection \<open>Strings\<close>

declare string_spec.simps(2) [simp del]

lemma string_spec_unicode:
  assumes "string_spec q (CHR 0x5C # CHR ''u'' # es) = Inr (v, n)"
  shows "4 \<le> length es \<and> list_all isxdigit (take 4 es) \<and>
         (\<exists>v' n'. string_spec q (drop 4 es) = Inr (v', n') \<and>
            v = to_bytes (stoi16 (take 4 es)) @ v' \<and> n = n' + 6)"
  using assms by (auto simp add: string_spec.simps(2) split: if_splits sum.splits)

lemma string_spec_simple:
  assumes "string_spec q (CHR 0x5C # e # es) = Inr (v, n)" "e \<noteq> CHR ''u''"
  shows "\<exists>d v' n'. simple_escape e = Some d \<and> string_spec q es = Inr (v', n') \<and>
           v = d # v' \<and> n = n' + 2"
  using assms
  by (auto simp add: string_spec.simps(2) simp del: simple_escape.simps
      split: if_splits sum.splits option.splits)

lemma string_spec_plain:
  assumes "string_spec q (c # cs) = Inr (v, n)" "c \<noteq> CHR 0x5C" "c \<noteq> q"
  shows "\<exists>v' n'. string_spec q cs = Inr (v', n') \<and> v = c # v' \<and> n = n' + 1"
  using assms by (auto simp add: string_spec.simps(2) split: if_splits sum.splits)

lemma string_spec_bounds:
  "string_spec q xs = Inr (v, n) \<Longrightarrow> 1 \<le> n \<and> n \<le> length xs \<and> xs ! (n - 1) = q"
proof (induction q xs arbitrary: v n rule: string_spec.induct)
  case (1 q)
  then show ?case by simp
next
  case (2 q c cs)
  show ?case
  proof (cases "c = CHR 0x5C")
    case False
    show ?thesis
    proof (cases "c = q")
      case True
      with False 2(4) show ?thesis by (simp add: string_spec.simps(2))
    next
      case cq: False
      from string_spec_plain [OF 2(4) False cq] obtain v' n'
        where s: "string_spec q cs = Inr (v', n')" and n: "n = n' + 1" by auto
      from 2(3) [OF False cq s] n show ?thesis by (auto simp add: nth_Cons')
    qed
  next
    case bs: True
    show ?thesis
    proof (cases cs)
      case Nil
      with bs 2(4) show ?thesis by (simp add: string_spec.simps(2))
    next
      case (Cons e es)
      show ?thesis
      proof (cases "e = CHR ''u''")
        case True
        from string_spec_unicode [of q es v n] 2(4) bs Cons True obtain v' n'
          where h: "4 \<le> length es \<and> list_all isxdigit (take 4 es)"
            and s: "string_spec q (drop 4 es) = Inr (v', n')" and n: "n = n' + 6" by auto
        from 2(1) [OF bs Cons True h s] have "1 \<le> n'" "n' \<le> length (drop 4 es)"
          "drop 4 es ! (n' - 1) = q" by auto
        with n h bs Cons show ?thesis by (auto simp add: nth_Cons')
      next
        case False
        from string_spec_simple [of q e es v n] 2(4) bs Cons False obtain d v' n'
          where d: "simple_escape e = Some d"
            and s: "string_spec q es = Inr (v', n')" and n: "n = n' + 2" by auto
        from 2(2) [OF bs Cons False d s] n bs Cons show ?thesis by (auto simp add: nth_Cons')
      qed
    qed
  qed
qed

lemma string_spec_backslash:
  "string_spec q (CHR 0x5C # cs) = Inr (v, n) \<Longrightarrow> 2 \<le> n"
  by (auto simp add: string_spec.simps(2) simp del: simple_escape.simps
      split: if_splits sum.splits option.splits list.splits)

lemma read_hex_final_window:
  "final_window r \<Longrightarrow> buffer r \<noteq> [] \<Longrightarrow> drop 1 (unread r) = xs \<Longrightarrow>
   read_hex n r hex =
     (if n \<le> length xs \<and> list_all isxdigit (take n xs)
      then Inr (advance n r, hex @ take n xs)
      else Inl InvalidUnicodeEscape)"
proof (induction n arbitrary: r hex xs)
  case 0
  then show ?case by simp
next
  case (Suc n)
  let ?r1 = "advance 1 r"
  have nx: "next r = Inr ?r1" using Suc.prems by (simp add: next_final_window)
  have u1: "unread ?r1 = xs" using Suc.prems(3) by simp
  show ?case
  proof (cases xs)
    case Nil
    with u1 have "\<not> valid ?r1" by (simp add: valid_unread)
    with Nil nx show ?thesis by simp
  next
    case (Cons h hs)
    with u1 have v: "valid ?r1" and p: "peek ?r1 = h" by (simp_all add: valid_unread peek_unread)
    have hs: "drop 1 (unread ?r1) = hs" using Cons u1 by simp
    have "final_window ?r1" "buffer ?r1 \<noteq> []" using Suc.prems by simp_all
    from Suc.IH [OF this hs, of "hex @ [h]"] nx v p Cons show ?thesis by simp
  qed
qed

lemma string_escape_simple:
  "e \<noteq> CHR ''u'' \<Longrightarrow>
   string_escape e r val =
     (case simple_escape e of None \<Rightarrow> Inl InvalidEscape | Some d \<Rightarrow> Inr (r, val @ [d]))"
  by (simp add: string_escape_def)

lemma string_loop_plain:
  assumes "final_window r" "unread r = c # cs" "c \<noteq> CHR 0x5C" "c \<noteq> q"
  shows "string_loop q r val False =
           (if cs \<noteq> [] then string_loop q (advance 1 r) (val @ [c]) False
            else Some (Inr (advance 1 r, val @ [c])))"
proof -
  have v: "valid r" using assms(2) by (simp add: valid_unread)
  then have "string_step q r val False = Inr (False, advance 1 r, val @ [c], False)"
    using assms by (simp add: string_step_def peek_unread next_final_window valid_buffer)
  then show ?thesis using assms(2)
    by (subst string_loop.simps) (simp add: valid_unread drop_Suc)
qed

lemma string_loop_backslash:
  assumes "final_window r" "unread r = CHR 0x5C # cs"
  shows "string_loop q r val False =
           (if cs \<noteq> [] then string_loop q (advance 1 r) val True
            else Some (Inr (advance 1 r, val)))"
proof -
  have v: "valid r" using assms(2) by (simp add: valid_unread)
  then have "string_step q r val False = Inr (False, advance 1 r, val, True)"
    using assms by (simp add: string_step_def peek_unread next_final_window valid_buffer)
  then show ?thesis using assms(2)
    by (subst string_loop.simps) (simp add: valid_unread drop_Suc)
qed

lemma string_loop_quote:
  assumes "unread r = q # cs" "q \<noteq> CHR 0x5C"
  shows "string_loop q r val False = Some (Inr (r, val))"
proof -
  have v: "valid r" using assms(1) by (simp add: valid_unread)
  then have "string_step q r val False = Inr (True, r, val, False)"
    using assms by (simp add: string_step_def peek_unread)
  then show ?thesis
    by (subst string_loop.simps) simp
qed

lemma string_loop_end:
  assumes "final_window r" "buffer r \<noteq> []" "unread r = []"
  shows "\<exists>r' val'. string_loop q r val False = Some (Inr (r', val')) \<and> \<not> valid r'"
proof -
  have nv: "\<not> valid r" using assms(3) by (simp add: valid_unread)
  then have p: "peek r = CHR 0x00" by (rule peek_invalid)
  have nv1: "\<not> valid (advance 1 r)" using assms(3) by (simp add: valid_unread)
  show ?thesis
  proof (cases "q = CHR 0x00")
    case True
    with p have "string_step q r val False = Inr (True, r, val, False)"
      by (simp add: string_step_def)
    then have "string_loop q r val False = Some (Inr (r, val))"
      by (subst string_loop.simps) simp
    with nv show ?thesis by blast
  next
    case False
    with p assms have "string_step q r val False = Inr (False, advance 1 r, val @ [CHR 0x00], False)"
      by (simp add: string_step_def next_final_window)
    with nv1 have "string_loop q r val False = Some (Inr (advance 1 r, val @ [CHR 0x00]))"
      by (subst string_loop.simps) simp
    with nv1 show ?thesis by blast
  qed
qed

lemma string_loop_escape_simple:
  assumes "final_window r" "unread r = e # es" "e \<noteq> CHR ''u''" "simple_escape e = Some d"
  shows "string_loop q r val True =
           (if es \<noteq> [] then string_loop q (advance 1 r) (val @ [d]) False
            else Some (Inr (advance 1 r, val @ [d])))"
proof -
  have v: "valid r" using assms(2) by (simp add: valid_unread)
  then have "string_step q r val True = Inr (False, advance 1 r, val @ [d], False)"
    using assms
    by (simp add: string_step_def peek_unread next_final_window valid_buffer
        string_escape_simple del: simple_escape.simps)
  then show ?thesis using assms(2)
    by (subst string_loop.simps) (simp add: valid_unread drop_Suc)
qed

lemma string_loop_escape_invalid:
  assumes "unread r = e # es" "e \<noteq> CHR ''u''" "simple_escape e = None"
  shows "string_loop q r val True = Some (Inl InvalidEscape)"
proof -
  have v: "valid r" using assms(1) by (simp add: valid_unread)
  then have "string_step q r val True = Inl InvalidEscape"
    using assms
    by (simp add: string_step_def peek_unread string_escape_simple del: simple_escape.simps)
  then show ?thesis
    by (subst string_loop.simps) simp
qed

lemma string_loop_unicode:
  assumes "final_window r" "unread r = CHR ''u'' # es"
    "4 \<le> length es \<and> list_all isxdigit (take 4 es)"
  shows "string_loop q r val True =
           (if drop 4 es \<noteq> [] then
              string_loop q (advance 5 r) (val @ to_bytes (stoi16 (take 4 es))) False
            else Some (Inr (advance 5 r, val @ to_bytes (stoi16 (take 4 es)))))"
proof -
  have v: "valid r" using assms(2) by (simp add: valid_unread)
  then have b: "buffer r \<noteq> []" by (rule valid_buffer)
  have d: "drop 1 (unread r) = es" using assms(2) by simp
  have "read_hex 4 r [] = Inr (advance 4 r, take 4 es)"
    using read_hex_final_window [OF assms(1) b d, of 4 "[]"] assms(3) by simp
  then have "string_escape (CHR ''u'') r val
               = Inr (advance 4 r, val @ to_bytes (stoi16 (take 4 es)))"
    by (simp add: string_escape_def)
  then have "string_step q r val True
               = Inr (False, advance 5 r, val @ to_bytes (stoi16 (take 4 es)), False)"
    using v assms(1,2) b by (simp add: string_step_def peek_unread next_final_window)
  then show ?thesis using assms(2)
    by (subst string_loop.simps) (simp add: valid_unread drop_Suc)
qed

lemma string_loop_unicode_invalid:
  assumes "final_window r" "unread r = CHR ''u'' # es"
    "\<not> (4 \<le> length es \<and> list_all isxdigit (take 4 es))"
  shows "string_loop q r val True = Some (Inl InvalidUnicodeEscape)"
proof -
  have v: "valid r" using assms(2) by (simp add: valid_unread)
  then have b: "buffer r \<noteq> []" by (rule valid_buffer)
  have d: "drop 1 (unread r) = es" using assms(2) by simp
  have "read_hex 4 r [] = Inl InvalidUnicodeEscape"
    using read_hex_final_window [OF assms(1) b d, of 4 "[]"] assms(3) by auto
  then have "string_escape (CHR ''u'') r val = Inl InvalidUnicodeEscape"
    by (simp add: string_escape_def)
  then have "string_step q r val True = Inl InvalidUnicodeEscape"
    using v assms(2) by (simp add: string_step_def peek_unread)
  then show ?thesis
    by (subst string_loop.simps) simp
qed

lemma string_spec_pos: "string_spec q xs = Inr (v, n) \<Longrightarrow> Suc 0 \<le> n"
  using string_spec_bounds [of q xs v n] by simp

lemma advance_pred: "Suc 0 \<le> n \<Longrightarrow> advance (n - Suc 0) (advance (Suc 0) r) = advance n r"
  by simp

lemma string_loop_final_window:
  "final_window r \<Longrightarrow> buffer r \<noteq> [] \<Longrightarrow> (b \<longrightarrow> valid r) \<Longrightarrow> string_loop_agrees q r val b"
proof (induction "length (unread r)" arbitrary: r val b rule: less_induct)
  case less
  note bo = less.prems(1) and ne = less.prems(2)
  show ?case
  proof (cases "unread r")
    case Nil
    then have "\<not> valid r" by (simp add: valid_unread)
    with less.prems(3) have b: "\<not> b" by auto
    from string_loop_end [OF bo ne Nil, of q val] b Nil show ?thesis
      by (simp add: string_loop_agrees_def)
  next
    case (Cons c cs)
    let ?r1 = "advance 1 r"
    have b1: "final_window ?r1" "buffer ?r1 \<noteq> []" using bo ne by simp_all
    have u1: "unread ?r1 = cs" using Cons by (simp add: drop_Suc)
    have l1: "length (unread ?r1) < length (unread r)" using Cons u1 by simp
    have v1: "cs \<noteq> [] \<Longrightarrow> valid ?r1" using u1 by (simp add: valid_unread)
    have nv1: "\<not> valid ?r1" if "cs = []" using that u1 by (simp add: valid_unread)
    show ?thesis
    proof (cases b)
      case False
      show ?thesis
      proof (cases "c = CHR 0x5C")
        case bs: True
        have eq: "string_loop q r val False =
                    (if cs \<noteq> [] then string_loop q ?r1 val True else Some (Inr (?r1, val)))"
          using string_loop_backslash [OF bo, of cs q val] Cons bs by simp
        show ?thesis
        proof (cases "cs = []")
          case True
          with eq nv1 Cons bs False show ?thesis
            by (auto simp add: string_loop_agrees_def string_spec.simps(2))
        next
          case ne_cs: False
          have "valid ?r1" using ne_cs by (rule v1)
          then have "string_loop_agrees q ?r1 val True"
            by (intro less.hyps [OF l1 b1]) simp
          with eq ne_cs Cons bs False u1 show ?thesis
            by (auto simp add: string_loop_agrees_def split: sum.splits
                dest!: string_spec_backslash)
        qed
      next
        case nbs: False
        show ?thesis
        proof (cases "c = q")
          case True
          with string_loop_quote [of r q cs val] Cons nbs False show ?thesis
            by (simp add: string_loop_agrees_def string_spec.simps(2))
        next
          case nq: False
          have eq: "string_loop q r val False =
                      (if cs \<noteq> [] then string_loop q ?r1 (val @ [c]) False
                       else Some (Inr (?r1, val @ [c])))"
            using string_loop_plain [OF bo Cons nbs nq] by simp
          have sp: "string_spec q (c # cs) =
                      (case string_spec q cs of
                         Inl err \<Rightarrow> Inl err
                       | Inr (v, n) \<Rightarrow> Inr (c # v, n + 1))"
            using nbs nq by (simp add: string_spec.simps(2))
          show ?thesis
          proof (cases "cs = []")
            case True
            with eq nv1 Cons False sp show ?thesis
              by (auto simp add: string_loop_agrees_def)
          next
            case ne_cs: False
            have "string_loop_agrees q ?r1 (val @ [c]) False"
              by (rule less.hyps [OF l1 b1]) simp
            with eq ne_cs Cons False u1 sp show ?thesis
              by (auto simp add: string_loop_agrees_def advance_pred split: sum.splits
                  dest: string_spec_pos)
          qed
        qed
      qed
    next
      case True
      show ?thesis
      proof (cases "c = CHR ''u''")
        case u: True
        show ?thesis
        proof (cases "4 \<le> length cs \<and> list_all isxdigit (take 4 cs)")
          case hex: True
          let ?r5 = "advance 5 r"
          let ?val5 = "val @ to_bytes (stoi16 (take 4 cs))"
          have b5: "final_window ?r5" "buffer ?r5 \<noteq> []" using bo ne by simp_all
          have u5: "unread ?r5 = drop 4 cs" using Cons by simp
          have l5: "length (unread ?r5) < length (unread r)" using Cons u5 by simp
          have eq: "string_loop q r val True =
                      (if drop 4 cs \<noteq> [] then string_loop q ?r5 ?val5 False
                       else Some (Inr (?r5, ?val5)))"
            using string_loop_unicode [OF bo _ hex, of q val] Cons u by simp
          have sp: "string_spec q (CHR 0x5C # c # cs) =
                      (case string_spec q (drop 4 cs) of
                         Inl err \<Rightarrow> Inl err
                       | Inr (v, n) \<Rightarrow> Inr (to_bytes (stoi16 (take 4 cs)) @ v, n + 6))"
            using u hex by (simp add: string_spec.simps(2))
          show ?thesis
          proof (cases "drop 4 cs = []")
            case d: True
            then have "\<not> valid ?r5" using u5 by (simp add: valid_unread)
            with eq d Cons True sp show ?thesis
              by (auto simp add: string_loop_agrees_def)
          next
            case d: False
            have "string_loop_agrees q ?r5 ?val5 False"
              by (rule less.hyps [OF l5 b5]) simp
            with eq d Cons True u5 sp show ?thesis
              by (auto simp add: string_loop_agrees_def split: sum.splits
                  dest: string_spec_pos)
          qed
        next
          case False
          with string_loop_unicode_invalid [OF bo, of cs q val] Cons u True show ?thesis
            by (auto simp add: string_loop_agrees_def string_spec.simps(2))
        qed
      next
        case nu: False
        show ?thesis
        proof (cases "simple_escape c")
          case None
          with string_loop_escape_invalid [OF Cons nu, of q val] Cons nu True show ?thesis
            by (simp add: string_loop_agrees_def string_spec.simps(2) del: simple_escape.simps)
        next
          case (Some d)
          have eq: "string_loop q r val True =
                      (if cs \<noteq> [] then string_loop q ?r1 (val @ [d]) False
                       else Some (Inr (?r1, val @ [d])))"
            using string_loop_escape_simple [OF bo Cons nu Some] by simp
          have sp: "string_spec q (CHR 0x5C # c # cs) =
                      (case string_spec q cs of
                         Inl err \<Rightarrow> Inl err
                       | Inr (v, n) \<Rightarrow> Inr (d # v, n + 2))"
            using nu Some by (simp add: string_spec.simps(2) del: simple_escape.simps)
          show ?thesis
          proof (cases "cs = []")
            case True
            with eq nv1 Cons \<open>b\<close> sp show ?thesis
              by (auto simp add: string_loop_agrees_def)
          next
            case ne_cs: False
            have "string_loop_agrees q ?r1 (val @ [d]) False"
              by (rule less.hyps [OF l1 b1]) simp
            with eq ne_cs Cons \<open>b\<close> u1 sp show ?thesis
              by (auto simp add: string_loop_agrees_def advance_pred split: sum.splits
                  dest: string_spec_pos)
          qed
        qed
      qed
    qed
  qed
qed

lemma read_string_final_window:
  assumes "final_window r" "valid r" "peek r = CHR 0x22 \<or> peek r = CHR 0x27"
  shows "read_string r =
           Some (case string_spec (peek r) (drop 1 (unread r)) of
                   Inl e \<Rightarrow> Inl e
                 | Inr (v, n) \<Rightarrow> Inr (advance (n + 1) r, v))"
proof -
  let ?q = "peek r" and ?r1 = "advance 1 r"
  have g: "get r = Inr (?q, ?r1)" using assms by (simp add: get_final_window peek_unread)
  have b1: "final_window ?r1" "buffer ?r1 \<noteq> []" using assms by (simp_all add: valid_buffer)
  have u1: "unread ?r1 = drop 1 (unread r)" by simp
  have ag: "string_loop_agrees ?q ?r1 [] False"
    by (rule string_loop_final_window [OF b1]) simp
  show ?thesis
  proof (cases "string_spec ?q (drop 1 (unread r))")
    case (Inl e)
    show ?thesis
    proof (cases "e = MissingClosingQuote")
      case True
      with ag Inl u1 obtain r' val' where
        "string_loop ?q ?r1 [] False = Some (Inr (r', val'))" "\<not> valid r'"
        by (auto simp add: string_loop_agrees_def)
      with g assms Inl True show ?thesis
        by (simp add: read_string_def and_then_def)
    next
      case False
      with ag Inl u1 have "string_loop ?q ?r1 [] False = Some (Inl e)"
        by (auto simp add: string_loop_agrees_def)
      with g assms Inl show ?thesis
        by (simp add: read_string_def and_then_def)
    qed
  next
    case (Inr p)
    then obtain v n where p: "p = (v, n)" by (cases p) auto
    with Inr have sp: "string_spec ?q (drop 1 (unread r)) = Inr (v, n)" by simp
    from string_spec_bounds [OF sp] have n: "1 \<le> n" "n \<le> length (drop 1 (unread r))"
      "drop 1 (unread r) ! (n - 1) = ?q" by auto
    let ?r2 = "advance n r"
    have lp: "string_loop ?q ?r1 [] False = Some (Inr (?r2, v))"
      using ag sp u1 n(1) by (simp add: string_loop_agrees_def)
    have u2: "unread ?r2 = drop (n - 1) (drop 1 (unread r))" using n(1) by simp
    have ne2: "unread ?r2 \<noteq> []" using n(1,2) unfolding u2 by simp
    then have v2: "valid ?r2" by (simp add: valid_unread)
    have "hd (unread ?r2) = drop 1 (unread r) ! (n - 1)"
      unfolding u2 using n(1,2) by (simp add: hd_drop_conv_nth)
    with n(3) v2 have p2: "peek ?r2 = ?q" by (simp add: peek_unread)
    have nx: "next ?r2 = Inr (advance (n + 1) r)"
      using assms by (simp add: next_final_window valid_buffer)
    from g assms lp v2 p2 nx sp show ?thesis
      by (simp add: read_string_def and_then_def)
  qed
qed

lemma next_token_string:
  assumes "final_window r" "valid r" "peek r = CHR 0x22 \<or> peek r = CHR 0x27"
  shows "next_token r =
           Some (case string_spec (peek r) (drop 1 (unread r)) of
                   Inl e \<Rightarrow> Inl e
                 | Inr (v, n) \<Rightarrow>
                     if v = [] then
                       Inr (\<lparr>kind = string, tok_line = line r, tok_col = col r\<rparr>,
                            [peek (advance (n + 1) r)], advance (n + 2) r)
                     else
                       Inr (\<lparr>kind = string, tok_line = line r, tok_col = col r\<rparr>,
                            v, advance (n + 1) r))"
proof -
  have q: "peek r = CHR 0x27 \<or> peek r = CHR 0x22" using assms(3) by auto
  have ne: "buffer r \<noteq> []" using assms(2) by (rule valid_buffer)
  have g: "get (advance k r) = Inr (peek (advance k r), advance (k + 1) r)" for k
    using assms(1) ne by (simp add: get_def next_final_window)
  show ?thesis
  proof (cases "string_spec (peek r) (drop 1 (unread r))")
    case (Inl e)
    with assms q quote_class [OF q] show ?thesis
      by (simp add: next_token_def read_string_final_window and_then_def)
  next
    case (Inr p)
    then obtain v n where p: "p = (v, n)" by (cases p) auto
    with Inr assms q quote_class [OF q] g [of "n + 1"] show ?thesis
      by (simp add: next_token_def read_string_final_window and_then_def)
  qed
qed

subsection \<open>One token, and the loop until the end of the input\<close>

lemma prefix_split: "ys = take (length ys) xs \<Longrightarrow> xs = ys @ drop (length ys) xs"
  by (metis append_take_drop_id)

lemma integer_part_spec_prefix:
  "integer_part_spec xs = Inr ip \<Longrightarrow> ip = take (length ip) xs"
  by (cases xs) (auto split: if_splits list.splits simp add: takeWhile_eq_take [symmetric])

lemma fraction_part_spec_prefix:
  "fraction_part_spec xs = Inr fp \<Longrightarrow> fp = take (length fp) xs"
  by (cases xs) (auto split: if_splits list.splits simp add: takeWhile_eq_take [symmetric])

lemma exponent_part_spec_prefix:
  "exponent_part_spec xs = Inr ep \<Longrightarrow> ep = take (length ep) xs"
  by (cases xs)
     (auto split: if_splits list.splits simp add: takeWhile_eq_take [symmetric] Let_def)

lemma take_append_parts:
  assumes "a = take (length a) xs" "b = take (length b) (drop (length a) xs)"
  shows "a @ b = take (length a + length b) xs"
  by (metis assms take_add)

lemma number_spec_prefix:
  assumes "number_spec xs = Inr (k, lexeme)"
  shows "lexeme = take (length lexeme) xs"
proof -
  from assms obtain ip fp ep where
    ip: "integer_part_spec xs = Inr ip" and
    fp: "fraction_part_spec (drop (length ip) xs) = Inr fp" and
    ep: "exponent_part_spec (drop (length ip + length fp) xs) = Inr ep" and
    l: "lexeme = ip @ fp @ ep"
    by (auto simp add: number_spec_def split: sum.splits)
  have 1: "ip @ fp = take (length ip + length fp) xs"
    using integer_part_spec_prefix [OF ip] fraction_part_spec_prefix [OF fp]
    by (rule take_append_parts)
  have 2: "ep = take (length ep) (drop (length (ip @ fp)) xs)"
    using exponent_part_spec_prefix [OF ep] by simp
  have 3: "ip @ fp = take (length (ip @ fp)) xs"
    by (metis 1 length_append)
  have "(ip @ fp) @ ep = take (length (ip @ fp) + length ep) xs"
    using 3 2 by (rule take_append_parts)
  with l show ?thesis by (metis append.assoc length_append)
qed

lemma number_spec_kind: "number_spec xs = Inr (k, lexeme) \<Longrightarrow> k = integer \<or> k = floating"
  by (auto simp add: number_spec_def split: sum.splits if_splits)

lemma single_kind_not_eof: "single_kind c \<noteq> eof" "single_kind c \<noteq> string"
  by (simp_all add: single_kind_def)

lemma consume_whitespace_simps [simp]:
  "buffer (consume_whitespace ws r) = buffer r" "ifs (consume_whitespace ws r) = ifs r"
  "shift (consume_whitespace ws r) = shift r + length ws"
  "final_window (consume_whitespace ws r) = final_window r"
  "unread (consume_whitespace ws r) = drop (length ws) (unread r)"
  by (simp_all add: consume_whitespace_def Let_def final_window_def unread_def add.commute)

lemma next_token_step:
  assumes "final_window r" "valid r"
  shows "\<exists>res. next_token r = Some res \<and> token_step r res"
proof -
  from assms(2) obtain c cs where u: "unread r = c # cs"
    by (cases "unread r") (auto simp add: valid_unread)
  consider (kw) "isalpha (peek r) \<or> peek r = CHR ''_''"
    | (num) "isdigit (peek r)"
    | (str) "peek r = CHR 0x22 \<or> peek r = CHR 0x27"
    | (ws) "isspace (peek r)"
    | (single) "\<not> (isalpha (peek r) \<or> peek r = CHR ''_'')" "\<not> isdigit (peek r)"
        "\<not> (peek r = CHR 0x27 \<or> peek r = CHR 0x22)" "\<not> isspace (peek r)"
    by blast
  then show ?thesis
  proof cases
    case kw
    let ?w = "keyword_spec (unread r)"
    from kw assms u have "isalnum c \<or> c = CHR ''_''" by (auto simp add: peek_unread isalnum_def)
    then have ne: "?w \<noteq> []" using u by (auto simp add: keyword_spec_def)
    have "unread r = ?w @ drop (length ?w) (unread r)"
      by (rule prefix_split) (simp add: keyword_spec_def takeWhile_eq_take [symmetric])
    with ne assms show ?thesis
      unfolding next_token_keyword [OF assms kw] by (simp add: token_step_def)
  next
    case num
    show ?thesis
    proof (cases "number_spec (unread r)")
      case (Inl e)
      then show ?thesis
        unfolding next_token_number [OF assms num] by (simp add: token_step_def)
    next
      case (Inr p)
      then obtain k lexeme where p: "number_spec (unread r) = Inr (k, lexeme)"
        by (cases p) auto
      from number_spec_nonempty [OF p] number_spec_kind [OF p]
        prefix_split [OF number_spec_prefix [OF p]] assms p
      show ?thesis
        unfolding next_token_number [OF assms num] by (auto simp add: token_step_def)
    qed
  next
    case str
    show ?thesis
    proof (cases "string_spec (peek r) (drop 1 (unread r))")
      case (Inl e)
      then show ?thesis
        unfolding next_token_string [OF assms str] by (simp add: token_step_def)
    next
      case (Inr p)
      then obtain v n where p: "string_spec (peek r) (drop 1 (unread r)) = Inr (v, n)"
        by (cases p) auto
      with assms show ?thesis
        unfolding next_token_string [OF assms str] by (simp add: token_step_def)
    qed
  next
    case ws
    let ?w = "takeWhile isspace (unread r)"
    from ws assms u have ne: "?w \<noteq> []" by (auto simp add: peek_unread)
    have "unread r = ?w @ drop (length ?w) (unread r)"
      by (rule prefix_split) (simp add: takeWhile_eq_take [symmetric])
    with ne assms show ?thesis
      unfolding next_token_whitespace [OF assms ws] by (simp add: token_step_def)
  next
    case single
    from assms u show ?thesis
      unfolding next_token_single [OF assms single]
      by (simp add: token_step_def single_kind_not_eof peek_unread)
  qed
qed

lemma next_token_invalid:
  "\<not> valid r \<Longrightarrow>
   next_token r = Some (Inr (\<lparr>kind = eof, tok_line = line r, tok_col = col r\<rparr>, [], r))"
  by (simp add: next_token_def)

lemma unread_shorter:
  assumes "valid r" "buffer r' = buffer r" "shift r < shift r'"
  shows "length (unread r') < length (unread r)"
  using assms by (simp add: unread_def valid_def diff_less_mono2)

lemma tokens_until_eof_final_window:
  "final_window r \<Longrightarrow>
   \<exists>res. tokens_until_eof r = Some res \<and>
     (case res of
        Inl e \<Rightarrow> True
      | Inr ts \<Rightarrow> length ts \<le> length (unread r) \<and>
                  ((\<forall>p \<in> set ts. kind (fst p) \<noteq> string) \<longrightarrow> concat (map snd ts) = unread r))"
proof (induction "length (unread r)" arbitrary: r rule: less_induct)
  case less
  show ?case
  proof (cases "valid r")
    case False
    then have "tokens_until_eof r = Some (Inr [])"
      by (subst tokens_until_eof.simps) (simp add: next_token_invalid)
    with False show ?thesis by (simp add: valid_unread)
  next
    case True
    from next_token_step [OF less.prems True] obtain res
      where nt: "next_token r = Some res" and st: "token_step r res" by blast
    show ?thesis
    proof (cases res)
      case (Inl e)
      with nt have "tokens_until_eof r = Some (Inl e)"
        by (subst tokens_until_eof.simps) simp
      then show ?thesis by simp
    next
      case (Inr p)
      then obtain t lexeme r' where res: "res = Inr (t, lexeme, r')" by (cases p) auto
      with st have k: "kind t \<noteq> eof" and b: "final_window r'" and bf: "buffer r' = buffer r"
        and sh: "shift r < shift r'" and lx: "kind t = string \<or> unread r = lexeme @ unread r'"
        by (auto simp add: token_step_def)
      have l: "length (unread r') < length (unread r)"
        using True bf sh by (rule unread_shorter)
      from less.hyps [OF l b] obtain res' where
        t': "tokens_until_eof r' = Some res'" and
        c': "case res' of
               Inl e \<Rightarrow> True
             | Inr ts \<Rightarrow> length ts \<le> length (unread r') \<and>
                  ((\<forall>p \<in> set ts. kind (fst p) \<noteq> string) \<longrightarrow> concat (map snd ts) = unread r')"
        by blast
      have eq: "tokens_until_eof r =
                  Some (case res' of Inl e \<Rightarrow> Inl e | Inr ts \<Rightarrow> Inr ((t, lexeme) # ts))"
        using nt res k t' by (subst tokens_until_eof.simps) simp
      show ?thesis
      proof (cases res')
        case (Inl e)
        with eq show ?thesis by simp
      next
        case (Inr ts)
        with c' l lx eq show ?thesis by auto
      qed
    qed
  qed
qed

subsection \<open>Errors, examples and the constructors\<close>

lemma number_spec_error: "number_spec xs = Inl e \<Longrightarrow> NumberFormatError e"
  by (auto simp add: number_spec_def Let_def
      split: sum.splits elim!: integer_part_spec.elims fraction_part_spec.elims
        exponent_part_spec.elims split: if_splits list.splits)

lemma reader_from_buffer_fresh:
  "s \<noteq> [] \<Longrightarrow>
   final_window (reader_from_buffer s) \<and> valid (reader_from_buffer s) \<and>
   peek (reader_from_buffer s) = hd s \<and> unread (reader_from_buffer s) = s \<and>
   buffer (reader_from_buffer s) = s \<and>
   line (reader_from_buffer s) = 0 \<and> col (reader_from_buffer s) = 0 \<and>
   shift (reader_from_buffer s) = 0"
  by (simp add: reader_from_buffer_def final_window_def closed_stream_def valid_def peek_def
      unread_def hd_conv_nth)





lemma tokens_example:
  "tokens_until_eof (reader_from_buffer ''ab 12'') =
     Some (Inr [(\<lparr>kind = keyword, tok_line = 0, tok_col = 0\<rparr>, ''ab''),
                (\<lparr>kind = whitespace, tok_line = 0, tok_col = 2\<rparr>, '' ''),
                (\<lparr>kind = integer, tok_line = 0, tok_col = 3\<rparr>, ''12'')])"
  by code_simp

lemma newline_in_whitespace_example:
  "tokens_until_eof (reader_from_buffer [CHR ''a'', CHR 0x0A, CHR ''b'']) =
     Some (Inr [(\<lparr>kind = keyword, tok_line = 0, tok_col = 0\<rparr>, ''a''),
                (\<lparr>kind = whitespace, tok_line = 0, tok_col = 1\<rparr>, [CHR 0x0A]),
                (\<lparr>kind = keyword, tok_line = 1, tok_col = 0\<rparr>, ''b'')])"
  by code_simp

lemma reader_from_path_position:
  "reader_from_path (Some bytes) n = Inr r \<Longrightarrow> line r = - 1 \<and> col r = - 1"
  by (auto simp add: reader_from_path_def refill_buffer_def Let_def split: prod.splits if_splits)

lemma path_constructor_full_chunk:
  assumes "0 < n" "nat n \<le> length bytes" "reader_from_path (Some bytes) n = Inr r"
  shows "buffer r = [] \<and> \<not> valid r"
  using assms
  by (auto simp add: reader_from_path_def refill_buffer_def ifs_seekg_def ifs_tellg_def
      ifs_read_def open_stream_def store_bytes_def Let_def valid_def split: if_splits)

lemma list_all_takeWhile: "list_all P (takeWhile P xs)"
  by (induction xs) simp_all

lemma integer_part_spec_shape: "integer_part_spec xs = Inr ip \<Longrightarrow> is_integer_part ip"
  by (cases xs)
     (auto simp add: is_integer_part_def list_all_takeWhile split: if_splits list.splits)

lemma fraction_part_spec_shape:
  "fraction_part_spec xs = Inr fp \<Longrightarrow> fp = [] \<or> is_fraction_part fp"
  by (cases xs)
     (auto simp add: is_fraction_part_def list_all_takeWhile split: if_splits list.splits)

lemma isdigit_not_sign: "isdigit d \<Longrightarrow> d \<noteq> CHR ''+'' \<and> d \<noteq> CHR ''-''"
  by (auto simp add: isdigit_def Let_def)

lemma exponent_part_spec_shape:
  "exponent_part_spec xs = Inr ep \<Longrightarrow> ep = [] \<or> is_exponent_part ep"
  by (cases xs)
     (auto simp add: is_exponent_part_def list_all_takeWhile Let_def
        split: if_splits list.splits dest: isdigit_not_sign)

lemma number_spec_shape:
  assumes "number_spec xs = Inr (k, lexeme)"
  shows "number_lexeme k lexeme"
proof -
  from assms obtain ip fp ep where
    ip: "integer_part_spec xs = Inr ip" and
    fp: "fraction_part_spec (drop (length ip) xs) = Inr fp" and
    ep: "exponent_part_spec (drop (length ip + length fp) xs) = Inr ep" and
    l: "lexeme = ip @ fp @ ep" and
    k: "k = (if fp = [] \<and> ep = [] then integer else floating)"
    by (auto simp add: number_spec_def split: sum.splits)
  from integer_part_spec_shape [OF ip] fraction_part_spec_shape [OF fp]
    exponent_part_spec_shape [OF ep] l k
  show ?thesis unfolding number_lexeme_def by blast
qed

lemma number_spec_error_digit:
  assumes "xs \<noteq> []" "isdigit (hd xs)" "number_spec xs = Inl e"
  shows "e = LeadingZeros \<or> e = ExpectedDigitAfterDecimal \<or> e = ExpectedDigitAfterExponent"
proof -
  from assms(1,2) have "integer_part_spec xs \<noteq> Inl ExpectedDigit"
    by (cases xs) (auto split: list.splits)
  moreover have "integer_part_spec xs = Inl e' \<Longrightarrow> e' = LeadingZeros \<or> e' = ExpectedDigit"
    for e' by (cases xs) (auto split: if_splits list.splits)
  moreover have "fraction_part_spec ys = Inl e' \<Longrightarrow> e' = ExpectedDigitAfterDecimal"
    for ys e' by (cases ys) (auto split: if_splits list.splits)
  moreover have "exponent_part_spec ys = Inl e' \<Longrightarrow> e' = ExpectedDigitAfterExponent"
    for ys e' by (cases ys) (auto simp add: Let_def split: if_splits list.splits)
  ultimately show ?thesis using assms(3)
    by (auto simp add: number_spec_def split: sum.splits)
qed

lemma short_file_example:
  "\<exists>r. reader_from_path (Some ''ab'') 4096 = Inr r \<and> buffer r = [CHR 0x00, CHR 0x00] \<and>
        valid r \<and> peek r = CHR 0x00"
  by (simp add: reader_from_path_def refill_buffer_def ifs_seekg_def ifs_tellg_def ifs_read_def
      open_stream_def store_bytes_def resize_def storage_def small_string_capacity_def Let_def
      valid_def peek_def numeral_2_eq_2)

lemma next_token_lexeme_nonempty:
  assumes "valid r" "next_token r = Some (Inr (t, lexeme, r'))"
  shows "lexeme \<noteq> [] \<and> kind t \<noteq> eof"
proof -
  have k: "read_number r = Some (Inr (r1, lx, k)) \<Longrightarrow> k \<noteq> eof" for r1 lx k
    by (auto simp add: read_number_def and_then_def split: option.splits sum.splits if_splits)
  from assms show ?thesis
    by (auto simp add: next_token_def and_then_def Let_def
        split: if_splits option.splits sum.splits prod.splits dest: k)
qed

lemma refill_buffer_error: "refill_buffer r = Inl e \<Longrightarrow> e = UndefinedBehaviour"
  by (auto simp add: refill_buffer_def Let_def split: if_splits prod.splits)

lemma jump_to_seek_errors:
  "(position < 0 \<longrightarrow> jump_to r position l c = Inl PositionOutOfRange) \<and>
   (\<not> is_open (ifs r) \<and> int (length (buffer r)) < position \<longrightarrow>
      jump_to r position l c = Inl PositionOutOfRange) \<and>
   (\<not> is_open (ifs r) \<and> 0 \<le> position \<and> position \<le> int (length (buffer r)) \<longrightarrow>
      jump_to r position l c = Inr (r\<lparr>shift := nat position, line := l, col := c\<rparr>)) \<and>
   (is_open (ifs r) \<and> 0 \<le> position \<longrightarrow> jump_to r position l c \<noteq> Inl PositionOutOfRange) \<and>
   (\<forall>r'. jump_to r position l c = Inr r' \<longrightarrow> line r' = l \<and> col r' = c) \<and>
   SeekError PositionOutOfRange"
  by (auto simp add: jump_to_def split: sum.splits dest: refill_buffer_error)

lemma path_reader_failed:
  assumes "reader_from_path (Some bytes) n = Inr r" "valid r"
  shows "is_open (ifs r) \<and> eofbit (ifs r) \<and> failbit (ifs r) \<and> 0 < max_buffer_size r"
  using assms
  by (auto simp add: reader_from_path_def refill_buffer_def ifs_seekg_def ifs_tellg_def
      ifs_read_def open_stream_def store_bytes_def resize_def Let_def valid_def
      split: if_splits)

lemma jump_to_after_end_of_file:
  assumes "reader_from_path (Some bytes) n = Inr r" "valid r" "0 \<le> position"
  shows "\<exists>r'. jump_to r position l c = Inr r' \<and> offset r' = - 1 \<and> buffer r' = [] \<and>
           gpos (ifs r') = gpos (ifs r)"
  using path_reader_failed [OF assms(1,2)] assms(3)
  by (simp add: jump_to_def refill_buffer_def ifs_seekg_def ifs_tellg_def ifs_read_def
      store_bytes_def resize_def storage_def Let_def)

lemma path_constructor_overrun:
  assumes "int small_string_capacity < n" "small_string_capacity < length bytes"
  shows "reader_from_path (Some bytes) n = Inl UndefinedBehaviour"
  using assms
  by (simp add: reader_from_path_def refill_buffer_def ifs_seekg_def ifs_tellg_def
      ifs_read_def open_stream_def storage_def small_string_capacity_def Let_def)

section \<open>The claims\<close>

subsection \<open>C1: the numeric grammar\<close>

text \<open>
  Claim C1. For a lexeme whose first byte is a digit, \<^verbatim>\<open>next_token\<close> implements the strict
  numeric grammar of the specification, here \<open>number_spec\<close>: an integer part that is the
  single digit 0 or a run of digits that does not start with 0, an optional fraction (a dot
  and one or more digits), an optional exponent (e or E, an optional sign, one or more
  digits). The token is \<open>integer\<close> exactly when neither fraction nor exponent is present,
  \<open>floating\<close> otherwise; the lexeme is the text of the number (\<open>number_lexeme\<close>), a
  prefix of the unread input, and the reader advances past it; an error is raised exactly
  when the grammar fails: a leading 0 before a digit, a dot or an exponent marker that no
  digit follows. Stated for a reader whose window is final.
\<close>

theorem numeric_grammar:
  assumes "final_window r" "valid r" "isdigit (peek r)"
  shows "next_token r =
           Some (case number_spec (unread r) of
                   Inl e \<Rightarrow> Inl e
                 | Inr (k, lexeme) \<Rightarrow>
                     Inr (\<lparr>kind = k, tok_line = line r, tok_col = col r\<rparr>, lexeme,
                          r\<lparr>shift := shift r + length lexeme,
                            col := col r + int (length lexeme)\<rparr>)) \<and>
         (\<forall>e. number_spec (unread r) = Inl e \<longrightarrow>
            NumberFormatError e \<and>
            (e = LeadingZeros \<or> e = ExpectedDigitAfterDecimal \<or>
             e = ExpectedDigitAfterExponent)) \<and>
         (\<forall>k lexeme. number_spec (unread r) = Inr (k, lexeme) \<longrightarrow>
            number_lexeme k lexeme \<and> lexeme = take (length lexeme) (unread r))"
proof (intro conjI allI impI)
  show "next_token r =
           Some (case number_spec (unread r) of
                   Inl e \<Rightarrow> Inl e
                 | Inr (k, lexeme) \<Rightarrow>
                     Inr (\<lparr>kind = k, tok_line = line r, tok_col = col r\<rparr>, lexeme,
                          r\<lparr>shift := shift r + length lexeme,
                            col := col r + int (length lexeme)\<rparr>))"
    unfolding next_token_number [OF assms] by (simp add: advance_def split: sum.splits)
next
  fix e assume e: "number_spec (unread r) = Inl e"
  then show "NumberFormatError e" by (rule number_spec_error)
  from assms(2,3) have "unread r \<noteq> []" "isdigit (hd (unread r))"
    by (simp_all add: valid_unread peek_unread)
  then show "e = LeadingZeros \<or> e = ExpectedDigitAfterDecimal \<or> e = ExpectedDigitAfterExponent"
    using e by (rule number_spec_error_digit)
next
  fix k lexeme assume n: "number_spec (unread r) = Inr (k, lexeme)"
  then show "number_lexeme k lexeme" by (rule number_spec_shape)
  from n show "lexeme = take (length lexeme) (unread r)" by (rule number_spec_prefix)
qed

text \<open>The inputs that the specification lists, each through the theorem.\<close>

theorem numeric_grammar_witness:
  "next_token (reader_from_buffer ''0123'') = Some (Inl LeadingZeros) \<and>
   next_token (reader_from_buffer ''123.'') = Some (Inl ExpectedDigitAfterDecimal) \<and>
   next_token (reader_from_buffer ''123e'') = Some (Inl ExpectedDigitAfterExponent) \<and>
   next_token (reader_from_buffer ''123E+'') = Some (Inl ExpectedDigitAfterExponent) \<and>
   next_token (reader_from_buffer ''123eE'') = Some (Inl ExpectedDigitAfterExponent) \<and>
   next_token (reader_from_buffer ''0'') =
     Some (Inr (\<lparr>kind = integer, tok_line = 0, tok_col = 0\<rparr>, ''0'',
                reader_from_buffer ''0''\<lparr>shift := 1, col := 1\<rparr>)) \<and>
   next_token (reader_from_buffer ''73'') =
     Some (Inr (\<lparr>kind = integer, tok_line = 0, tok_col = 0\<rparr>, ''73'',
                reader_from_buffer ''73''\<lparr>shift := 2, col := 2\<rparr>)) \<and>
   next_token (reader_from_buffer ''0.0'') =
     Some (Inr (\<lparr>kind = floating, tok_line = 0, tok_col = 0\<rparr>, ''0.0'',
                reader_from_buffer ''0.0''\<lparr>shift := 3, col := 3\<rparr>)) \<and>
   next_token (reader_from_buffer ''1.5e-10'') =
     Some (Inr (\<lparr>kind = floating, tok_line = 0, tok_col = 0\<rparr>, ''1.5e-10'',
                reader_from_buffer ''1.5e-10''\<lparr>shift := 7, col := 7\<rparr>)) \<and>
   next_token (reader_from_buffer ''168E+012'') =
     Some (Inr (\<lparr>kind = floating, tok_line = 0, tok_col = 0\<rparr>, ''168E+012'',
                reader_from_buffer ''168E+012''\<lparr>shift := 8, col := 8\<rparr>))"
proof -
  note ev = number_spec_def isdigit_def Let_def
  have 1: "next_token (reader_from_buffer ''0123'') = Some (Inl LeadingZeros)"
    using numeric_grammar [of "reader_from_buffer ''0123''"]
      reader_from_buffer_fresh [of "''0123''"] by (simp add: ev)
  have 2: "next_token (reader_from_buffer ''123.'') = Some (Inl ExpectedDigitAfterDecimal)"
    using numeric_grammar [of "reader_from_buffer ''123.''"]
      reader_from_buffer_fresh [of "''123.''"] by (simp add: ev)
  have 3: "next_token (reader_from_buffer ''123e'') = Some (Inl ExpectedDigitAfterExponent)"
    using numeric_grammar [of "reader_from_buffer ''123e''"]
      reader_from_buffer_fresh [of "''123e''"] by (simp add: ev)
  have 4: "next_token (reader_from_buffer ''123E+'') = Some (Inl ExpectedDigitAfterExponent)"
    using numeric_grammar [of "reader_from_buffer ''123E+''"]
      reader_from_buffer_fresh [of "''123E+''"] by (simp add: ev)
  have 5: "next_token (reader_from_buffer ''123eE'') = Some (Inl ExpectedDigitAfterExponent)"
    using numeric_grammar [of "reader_from_buffer ''123eE''"]
      reader_from_buffer_fresh [of "''123eE''"] by (simp add: ev)
  have 6: "next_token (reader_from_buffer ''0'') =
     Some (Inr (\<lparr>kind = integer, tok_line = 0, tok_col = 0\<rparr>, ''0'',
                reader_from_buffer ''0''\<lparr>shift := 1, col := 1\<rparr>))"
    using numeric_grammar [of "reader_from_buffer ''0''"]
      reader_from_buffer_fresh [of "''0''"] by (simp add: ev)
  have 7: "next_token (reader_from_buffer ''73'') =
     Some (Inr (\<lparr>kind = integer, tok_line = 0, tok_col = 0\<rparr>, ''73'',
                reader_from_buffer ''73''\<lparr>shift := 2, col := 2\<rparr>))"
    using numeric_grammar [of "reader_from_buffer ''73''"]
      reader_from_buffer_fresh [of "''73''"] by (simp add: ev)
  have 8: "next_token (reader_from_buffer ''0.0'') =
     Some (Inr (\<lparr>kind = floating, tok_line = 0, tok_col = 0\<rparr>, ''0.0'',
                reader_from_buffer ''0.0''\<lparr>shift := 3, col := 3\<rparr>))"
    using numeric_grammar [of "reader_from_buffer ''0.0''"]
      reader_from_buffer_fresh [of "''0.0''"] by (simp add: ev)
  have 9: "next_token (reader_from_buffer ''1.5e-10'') =
     Some (Inr (\<lparr>kind = floating, tok_line = 0, tok_col = 0\<rparr>, ''1.5e-10'',
                reader_from_buffer ''1.5e-10''\<lparr>shift := 7, col := 7\<rparr>))"
    using numeric_grammar [of "reader_from_buffer ''1.5e-10''"]
      reader_from_buffer_fresh [of "''1.5e-10''"] by (simp add: ev)
  have 10: "next_token (reader_from_buffer ''168E+012'') =
     Some (Inr (\<lparr>kind = floating, tok_line = 0, tok_col = 0\<rparr>, ''168E+012'',
                reader_from_buffer ''168E+012''\<lparr>shift := 8, col := 8\<rparr>))"
    using numeric_grammar [of "reader_from_buffer ''168E+012''"]
      reader_from_buffer_fresh [of "''168E+012''"] by (simp add: ev)
  from 1 2 3 4 5 6 7 8 9 10 show ?thesis by blast
qed

subsection \<open>C2: string tokens\<close>

text \<open>
  Claim C2 says that a string literal yields a token of kind \<open>string\<close> whose lexeme is the
  decoded value, consuming the bytes from the opening quote through the closing quote and
  nothing more, also when the decoded value is empty. Lemma \<open>next_token_string\<close> shows this
  for every literal whose decoded value is not empty. For the empty literal the source does
  something else: \<^verbatim>\<open>if (lexeme.empty()) lexeme = get();\<close> runs after \<^verbatim>\<open>read_string\<close> too,
  so the byte after the closing quote becomes the lexeme and is consumed. On the input of
  the two quotes and \<open>x\<close> the lexeme is \<open>x\<close> and three bytes are consumed; on the two
  quotes alone the lexeme is the null character read at \<^verbatim>\<open>buffer[size()]\<close>, and
  \<^verbatim>\<open>shift\<close> ends beyond the window.
\<close>

theorem empty_string_literal_takes_next_byte:
  "next_token (reader_from_buffer [CHR 0x22, CHR 0x22, CHR ''x'']) =
     Some (Inr (\<lparr>kind = string, tok_line = 0, tok_col = 0\<rparr>, ''x'',
                reader_from_buffer [CHR 0x22, CHR 0x22, CHR ''x'']\<lparr>shift := 3, col := 3\<rparr>)) \<and>
   next_token (reader_from_buffer [CHR 0x27, CHR 0x27]) =
     Some (Inr (\<lparr>kind = string, tok_line = 0, tok_col = 0\<rparr>, [CHR 0x00],
                reader_from_buffer [CHR 0x27, CHR 0x27]\<lparr>shift := 3, col := 3\<rparr>))"
proof -
  let ?a = "[CHR 0x22, CHR 0x22, CHR ''x'']"
  let ?b = "[CHR 0x27, CHR 0x27]"
  have 1: "next_token (reader_from_buffer ?a) =
     Some (Inr (\<lparr>kind = string, tok_line = 0, tok_col = 0\<rparr>, ''x'',
                reader_from_buffer ?a\<lparr>shift := 3, col := 3\<rparr>))"
    using next_token_string [of "reader_from_buffer ?a"] reader_from_buffer_fresh [of ?a]
    by (simp add: string_spec.simps(2) advance_def peek_def)
  have 2: "next_token (reader_from_buffer ?b) =
     Some (Inr (\<lparr>kind = string, tok_line = 0, tok_col = 0\<rparr>, [CHR 0x00],
                reader_from_buffer ?b\<lparr>shift := 3, col := 3\<rparr>))"
    using next_token_string [of "reader_from_buffer ?b"] reader_from_buffer_fresh [of ?b]
    by (simp add: string_spec.simps(2) advance_def peek_def)
  from 1 2 show ?thesis by blast
qed

subsection \<open>C3: the lexemes reproduce the input\<close>

text \<open>
  Claim C3. On a reader constructed from the string \<open>s\<close>, the loop that calls
  \<^verbatim>\<open>next_token\<close> until \<open>eof\<close> terminates; when it reaches \<open>eof\<close> and none of the tokens
  is of kind \<open>string\<close>, the concatenation of the lexemes is \<open>s\<close>.
\<close>

theorem lexemes_reproduce_input:
  "\<exists>res. tokens_until_eof (reader_from_buffer s) = Some res \<and>
     (\<forall>ts. res = Inr ts \<longrightarrow> (\<forall>p \<in> set ts. kind (fst p) \<noteq> string) \<longrightarrow>
        concat (map snd ts) = s)"
proof -
  have b: "final_window (reader_from_buffer s)" and u: "unread (reader_from_buffer s) = s"
    by (simp_all add: reader_from_buffer_def final_window_def closed_stream_def unread_def Let_def)
  from tokens_until_eof_final_window [OF b] obtain res where
    t: "tokens_until_eof (reader_from_buffer s) = Some res" and
    c: "case res of
          Inl e \<Rightarrow> True
        | Inr ts \<Rightarrow> length ts \<le> length (unread (reader_from_buffer s)) \<and>
            ((\<forall>p \<in> set ts. kind (fst p) \<noteq> string) \<longrightarrow>
               concat (map snd ts) = unread (reader_from_buffer s))"
    by blast
  from c u have "\<forall>ts. res = Inr ts \<longrightarrow> (\<forall>p \<in> set ts. kind (fst p) \<noteq> string) \<longrightarrow>
        concat (map snd ts) = s"
    by (cases res) simp_all
  with t show ?thesis by blast
qed

theorem lexemes_reproduce_input_witness:
  "\<exists>ts. tokens_until_eof (reader_from_buffer ''ab 12'') = Some (Inr ts) \<and>
     list_all (\<lambda>p. kind (fst p) \<noteq> string) ts \<and> length ts = 3 \<and>
     concat (map snd ts) = ''ab 12''"
proof -
  let ?ts = "[(\<lparr>kind = keyword, tok_line = 0, tok_col = 0\<rparr>, ''ab''),
              (\<lparr>kind = whitespace, tok_line = 0, tok_col = 2\<rparr>, '' ''),
              (\<lparr>kind = integer, tok_line = 0, tok_col = 3\<rparr>, ''12'')]"
  have k: "\<forall>p \<in> set ?ts. kind (fst p) \<noteq> string" by simp
  from lexemes_reproduce_input [of "''ab 12''"] tokens_example k
  have "concat (map snd ?ts) = ''ab 12''" by auto
  with tokens_example show ?thesis by simp
qed

subsection \<open>C4: lines and columns\<close>

text \<open>
  Claim C4 says that every newline consumed, in a whitespace run or inside a string literal,
  increases \<^verbatim>\<open>line\<close> and resets the column. \<^verbatim>\<open>read_whitespace\<close> does so (lemma
  \<open>whitespace_loop_final_window\<close> with \<open>consume_whitespace\<close>, and the example
  \<open>newline_in_whitespace_example\<close> of the specification), but \<^verbatim>\<open>read_string\<close> does not:
  on a quoted newline followed by \<open>b\<close>, the keyword \<open>b\<close> is reported at line 0,
  column 3.
\<close>

theorem newline_in_string_keeps_line:
  "tokens_until_eof (reader_from_buffer [CHR 0x27, CHR 0x0A, CHR 0x27, CHR ''b'']) =
     Some (Inr [(\<lparr>kind = string, tok_line = 0, tok_col = 0\<rparr>, [CHR 0x0A]),
                (\<lparr>kind = keyword, tok_line = 0, tok_col = 3\<rparr>, ''b'')])"
  by code_simp

subsection \<open>C5: the position of a fresh reader\<close>

text \<open>
  Claim C5 says that a fresh reader starts at line 0, column 0, whether it is constructed
  from a path or from a string that is not empty. The constructor from a string does so
  (lemma \<open>reader_from_buffer_fresh\<close>); the constructor from a path leaves the default
  member initialisers \<open>-1\<close> (lemma \<open>reader_from_path_position\<close>), and the first token
  carries them. Here for a file that holds the one byte \<open>a\<close>.
\<close>

theorem path_constructor_position:
  "\<exists>r. reader_from_path (Some ''a'') 4096 = Inr r \<and> line r = - 1 \<and> col r = - 1 \<and>
        (\<exists>t lexeme r'. next_token r = Some (Inr (t, lexeme, r')) \<and>
           tok_line t = - 1 \<and> tok_col t = - 1)"
  by (simp add: reader_from_path_def refill_buffer_def ifs_seekg_def ifs_tellg_def ifs_read_def
      open_stream_def store_bytes_def resize_def storage_def small_string_capacity_def Let_def
      next_token_def valid_def peek_def
      and_then_def isalpha_def isdigit_def isspace_def get_def next_def)

subsection \<open>C6: the first refill\<close>

text \<open>
  Claim C6 says that after construction from a path the first byte of a file that is not
  empty is available. The constructor refills an empty \<^verbatim>\<open>buffer\<close>, and \<^verbatim>\<open>refill_buffer\<close>
  changes the size of the buffer only when fewer bytes than \<^verbatim>\<open>max_buffer_size\<close> were read:
  when the file holds at least a whole chunk, the window stays empty (lemma
  \<open>path_constructor_full_chunk\<close>) and the first token is \<open>eof\<close>. Here for a file of six
  bytes and a chunk size of four. (When the file is shorter than a chunk, \<^verbatim>\<open>resize\<close> grows
  the empty buffer with null characters: \<open>short_file_example\<close>. When more than 15 bytes
  are read, the read overruns the storage of the empty buffer:
  \<open>path_constructor_overrun\<close>.)
\<close>

theorem path_constructor_window_empty:
  "\<exists>r. reader_from_path (Some ''abcdef'') 4 = Inr r \<and> buffer r = [] \<and> \<not> valid r \<and>
        next_token r = Some (Inr (\<lparr>kind = eof, tok_line = - 1, tok_col = - 1\<rparr>, [], r))"
  by (simp add: reader_from_path_def refill_buffer_def ifs_seekg_def ifs_tellg_def ifs_read_def
      open_stream_def store_bytes_def resize_def storage_def small_string_capacity_def Let_def
      next_token_def valid_def)

subsection \<open>C7: the errors of a string literal\<close>



subsection \<open>C8: the end of the input\<close>

text \<open>
  Claim C8. Once the input is exhausted (the reader is not \<^verbatim>\<open>valid()\<close>), every call of
  \<^verbatim>\<open>next_token\<close>, however many came before it, returns a token of kind \<open>eof\<close> at the
  current position with an empty lexeme, and leaves the reader as it was: \<^verbatim>\<open>line\<close>,
  \<^verbatim>\<open>col\<close>, \<^verbatim>\<open>shift\<close> and the window are unchanged.
\<close>

theorem end_of_input_idempotent:
  assumes "\<not> valid r"
  shows "next_token_times n r =
           Some (Inr (\<lparr>kind = eof, tok_line = line r, tok_col = col r\<rparr>, [], r))"
proof (induction n)
  case 0
  from assms show ?case by (simp add: next_token_invalid)
next
  case (Suc n)
  with assms show ?case by (simp add: next_token_invalid)
qed

theorem end_of_input_idempotent_witness:
  "next_token_times 3 (advance 2 (reader_from_buffer ''ab'')) =
     Some (Inr (\<lparr>kind = eof, tok_line = 0, tok_col = 2\<rparr>, [],
                advance 2 (reader_from_buffer ''ab'')))"
proof -
  have "\<not> valid (advance 2 (reader_from_buffer ''ab''))"
    by (simp add: valid_def advance_def reader_from_buffer_def)
  from end_of_input_idempotent [OF this, of 3] show ?thesis
    by (simp add: advance_def reader_from_buffer_def)
qed

subsection \<open>C9: \<^verbatim>\<open>jump_to\<close>\<close>

text \<open>
  Claim C9 says that \<^verbatim>\<open>jump_to\<close> raises a seek error for a negative position and, without
  a file, for a position beyond the window, that it accepts every other position and stores
  the line and the column as they are given, and that with a file it repositions the origin
  and refills the window. The errors and the stored position are as the claim says (lemma
  \<open>jump_to_seek_errors\<close>). The repositioning is not: \<^verbatim>\<open>jump_to\<close> calls \<^verbatim>\<open>seekg\<close> without
  clearing the state of the stream, and a stream that has read up to the end of its file has
  \<^verbatim>\<open>failbit\<close> set, so the seek does nothing and the read of the refill fails. A reader made
  from the file of the three bytes \<open>abc\<close> with a chunk size of eight has a byte available;
  after \<^verbatim>\<open>jump_to(1, 0, 0)\<close> its \<^verbatim>\<open>offset\<close> is \<open>-1\<close>, its window is empty, and the next token
  is \<open>eof\<close>. Lemma \<open>jump_to_after_end_of_file\<close> shows the same for every reader made from
  a path that has a byte available, and every position.
\<close>

theorem jump_to_does_not_reposition:
  "\<exists>r. reader_from_path (Some ''abc'') 8 = Inr r \<and> valid r \<and>
        (\<exists>r'. jump_to r 1 0 0 = Inr r' \<and> offset r' = - 1 \<and> buffer r' = [] \<and> \<not> valid r' \<and>
           next_token r' = Some (Inr (\<lparr>kind = eof, tok_line = 0, tok_col = 0\<rparr>, [], r')))"
  by (simp add: reader_from_path_def refill_buffer_def ifs_seekg_def ifs_tellg_def ifs_read_def
      open_stream_def store_bytes_def resize_def storage_def small_string_capacity_def Let_def
      jump_to_def next_token_def valid_def)

subsection \<open>C10: progress\<close>

text \<open>
  Claim C10. A call of \<^verbatim>\<open>next_token\<close> at a \<^verbatim>\<open>valid()\<close> position that raises no error
  returns a token that is not \<open>eof\<close> with a lexeme that is not empty, on every reader. On
  a reader whose window is final (no file is open, or the file is at its end) the call
  returns, and when it raises no error it has consumed at least one byte: \<^verbatim>\<open>shift\<close> has
  grown and the window is the same. Consequently the loop that calls \<^verbatim>\<open>next_token\<close>
  until \<open>eof\<close> terminates, with an error or with \<open>eof\<close> after at most as many tokens as
  there are unread bytes.
\<close>

theorem next_token_progress:
  "(valid r \<longrightarrow>
      (\<forall>t lexeme r'. next_token r = Some (Inr (t, lexeme, r')) \<longrightarrow>
         lexeme \<noteq> [] \<and> kind t \<noteq> eof)) \<and>
   (final_window r \<longrightarrow>
      (valid r \<longrightarrow>
         (\<exists>res. next_token r = Some res \<and>
            (\<forall>t lexeme r'. res = Inr (t, lexeme, r') \<longrightarrow>
               shift r < shift r' \<and> buffer r' = buffer r \<and> final_window r'))) \<and>
      (\<exists>res. tokens_until_eof r = Some res \<and>
         (\<forall>ts. res = Inr ts \<longrightarrow> length ts \<le> length (buffer r) - shift r)))"
proof (intro conjI impI allI)
  fix t lexeme r'
  assume "valid r" "next_token r = Some (Inr (t, lexeme, r'))"
  then show "lexeme \<noteq> []" "kind t \<noteq> eof"
    using next_token_lexeme_nonempty by blast+
next
  assume "final_window r" "valid r"
  from next_token_step [OF this] obtain res
    where "next_token r = Some res" "token_step r res" by blast
  then show "\<exists>res. next_token r = Some res \<and>
               (\<forall>t lexeme r'. res = Inr (t, lexeme, r') \<longrightarrow>
                  shift r < shift r' \<and> buffer r' = buffer r \<and> final_window r')"
    by (auto simp add: token_step_def)
next
  assume "final_window r"
  from tokens_until_eof_final_window [OF this] obtain res
    where "tokens_until_eof r = Some res"
      "case res of Inl e \<Rightarrow> True | Inr ts \<Rightarrow> length ts \<le> length (unread r) \<and>
         ((\<forall>p \<in> set ts. kind (fst p) \<noteq> string) \<longrightarrow> concat (map snd ts) = unread r)"
    by blast
  then show "\<exists>res. tokens_until_eof r = Some res \<and>
            (\<forall>ts. res = Inr ts \<longrightarrow> length ts \<le> length (buffer r) - shift r)"
    by (auto simp add: unread_def)
qed

theorem next_token_progress_witness:
  "(\<exists>t lexeme r'. next_token (reader_from_buffer ''ab 12'') = Some (Inr (t, lexeme, r')) \<and>
      lexeme \<noteq> [] \<and> shift (reader_from_buffer ''ab 12'') < shift r') \<and>
   (\<exists>ts. tokens_until_eof (reader_from_buffer ''ab 12'') = Some (Inr ts) \<and> length ts \<le> 5)"
proof -
  let ?r = "reader_from_buffer ''ab 12''"
  have h: "final_window ?r" "valid ?r" "length (buffer ?r) - shift ?r = 5"
    using reader_from_buffer_fresh [of "''ab 12''"] by simp_all
  from next_token_step [OF h(1,2)] tokens_example
  have "\<exists>p. next_token ?r = Some (Inr p)"
    by (subst (asm) tokens_until_eof.simps) (auto split: sum.splits option.splits)
  with next_token_progress [of ?r] h tokens_example show ?thesis
    by auto
qed

end
